theory Spec2Isabelle
  imports Complex_Main
begin

section \<open>JavaScript values, argument objects and the heap\<close>

text \<open>
  The arguments forwarded to a task are JavaScript values. Primitives are carried by
  value, objects by reference: an object argument is an address into a heap that the
  caller shares with the queue, so a property the queue deletes is gone for the caller
  too. An object is the ordered list of its own properties, together with the two facts
  about it that the settlement handler depends on: whether it has no prototype
  (\<^verbatim>\<open>Object.create(null)\<close>, so it inherits no \<^verbatim>\<open>hasOwnProperty\<close>) and whether its
  properties are not configurable (\<^verbatim>\<open>Object.seal\<close>, \<^verbatim>\<open>Object.freeze\<close>).
\<close>

datatype jsval =
    Undefined
  | Null
  | Boolean bool
  | Number int
  | String string
  | Object nat

record obj =
  props :: "(string \<times> jsval) list"
  nullProto :: bool
  sealed :: bool

type_synonym heap = "nat \<Rightarrow> obj option"

text \<open>The truthiness test of \<^verbatim>\<open>arg && ...\<close>.\<close>

fun truthy :: "jsval \<Rightarrow> bool" where
  "truthy Undefined = False"
| "truthy Null = False"
| "truthy (Boolean b) = b"
| "truthy (Number n) = (n \<noteq> 0)"
| "truthy (String s) = (s \<noteq> [])"
| "truthy (Object r) = True"

text \<open>
  \<^verbatim>\<open>arg.hasOwnProperty("token")\<close>, with the exception as the left value. The method is
  looked up on the argument first: an own property of that name shadows the inherited
  method and, being no function (no value here is one), cannot be called; an object
  without prototype has no such method at all; \<^verbatim>\<open>undefined\<close> and \<^verbatim>\<open>null\<close> have no
  properties. Otherwise \<^verbatim>\<open>Object.prototype.hasOwnProperty\<close> answers: a boxed boolean or
  number has no own property, a boxed string owns only \<^verbatim>\<open>length\<close> and its indices, an
  object owns what the heap lists.
\<close>

fun hasOwnToken :: "heap \<Rightarrow> jsval \<Rightarrow> jsval + bool" where
  "hasOwnToken h (Object r) =
     (case h r of
        None \<Rightarrow> Inr False
      | Some ob \<Rightarrow>
         if ''hasOwnProperty'' \<in> set (map fst (props ob)) then Inl (String ''TypeError'')
         else if nullProto ob then Inl (String ''TypeError'')
         else Inr (''token'' \<in> set (map fst (props ob))))"
| "hasOwnToken h Undefined = Inl (String ''TypeError'')"
| "hasOwnToken h Null = Inl (String ''TypeError'')"
| "hasOwnToken h v = Inr False"

text \<open>
  \<^verbatim>\<open>delete arg.token\<close>: the property goes, the others keep their order. The class body
  is strict code, where deleting a property that is not configurable throws.
\<close>

definition deleteToken :: "obj \<Rightarrow> obj" where
  "deleteToken ob = ob\<lparr>props := filter (\<lambda>p. fst p \<noteq> ''token'') (props ob)\<rparr>"

fun deleteTokenOf :: "heap \<Rightarrow> jsval \<Rightarrow> jsval + heap" where
  "deleteTokenOf h (Object r) =
     (case h r of
        None \<Rightarrow> Inr h
      | Some ob \<Rightarrow>
         if sealed ob \<and> ''token'' \<in> set (map fst (props ob)) then Inl (String ''TypeError'')
         else Inr (h(r \<mapsto> deleteToken ob)))"
| "deleteTokenOf h v = Inr h"

text \<open>
  The callback of \<^verbatim>\<open>args.map\<close> in the settlement handler (lines 134 to 140): it deletes
  the property from the argument itself and returns the same argument, so
  \<^verbatim>\<open>outputArgs\<close> holds the arguments themselves.
\<close>

definition stripArg :: "heap \<Rightarrow> jsval \<Rightarrow> jsval + heap" where
  "stripArg h arg =
     (if truthy arg then
        (case hasOwnToken h arg of
           Inl e \<Rightarrow> Inl e
         | Inr b \<Rightarrow> if b then deleteTokenOf h arg else Inr h)
      else Inr h)"

text \<open>
  \<^verbatim>\<open>args.map\<close> visits the arguments in order and stops at the first exception: the
  exception, if any, and the heap as it is then.
\<close>

fun stripArgs :: "heap \<Rightarrow> jsval list \<Rightarrow> jsval option \<times> heap" where
  "stripArgs h [] = (None, h)"
| "stripArgs h (a # as) =
     (case stripArg h a of Inl e \<Rightarrow> (Some e, h) | Inr h' \<Rightarrow> stripArgs h' as)"

section \<open>Numbers\<close>

text \<open>
  \<^verbatim>\<open>_maxFlow\<close> is a finite JavaScript number, modelled as a rational; times are the
  integer milliseconds of \<^verbatim>\<open>Date.now()\<close>. The quotient \<^verbatim>\<open>(60 * 1000) / this._maxFlow\<close> is
  \<^verbatim>\<open>Infinity\<close> for a zero divisor, which HOL's division (\<open>x / 0 = 0\<close>) would hide, so
  the interval has a value of its own for it. Rounding of the quotient to a double is
  not modelled.
\<close>

datatype jsnum = Finite rat | Infinity

definition js_div :: "rat \<Rightarrow> rat \<Rightarrow> jsnum" where
  "js_div a b = (if b = 0 then Infinity else Finite (a / b))"

fun js_less :: "rat \<Rightarrow> jsnum \<Rightarrow> bool" where
  "js_less x (Finite y) = (x < y)"
| "js_less x Infinity = True"

section \<open>Tasks, promises and the queue object\<close>

text \<open>
  What the caller's function does when the task invokes it (line 129). While it runs it
  may submit further tasks to this same queue (an \<^verbatim>\<open>async\<close> function runs up to its
  first \<^verbatim>\<open>await\<close> inside the invocation); then it throws, or it returns something
  with no \<^verbatim>\<open>then\<close> method (and \<^verbatim>\<open>.then(resolve)\<close> throws a TypeError), or it returns a
  promise. The promise settles later, which is an event of its own.
\<close>

datatype result = Throws jsval | ReturnsNonThenable | ReturnsAwaitable

datatype callable = Callable (submits: "(callable \<times> jsval list) list") (result: result)

datatype outcome = Resolves jsval | Rejects jsval

datatype pstate = Pending | Fulfilled jsval | Rejected jsval

text \<open>
  The closure built by \<^verbatim>\<open>_createTask\<close>: it captures the function, its arguments and the
  \<^verbatim>\<open>resolve\<close>/\<^verbatim>\<open>reject\<close> pair of the promise that \<^verbatim>\<open>call\<close> returned, named by the
  promise's index.
\<close>

record task =
  caller :: callable
  args :: "jsval list"
  promise :: nat

text \<open>A dispatched task whose settlement handlers have not all run yet.\<close>

record inflight =
  r_promise :: nat
  r_beginTime :: int
  r_args :: "jsval list"
  r_settled :: bool

datatype logline =
    Debug_execute int nat rat
  | Debug_finish int nat "jsval list" rat
  | Error_unknown jsval

text \<open>The fields of the class, under the source's names without the underscore.\<close>

record flow_control =
  count :: int
  maxFlow :: rat
  minInterval :: jsnum
  name :: string
  lastExecuteTime :: int
  taskQueue :: "task list"
  totalTime :: int
  total :: int

text \<open>
  The queue object together with the runtime around it: the clock, the number of
  \<^verbatim>\<open>setTimeout\<close> callbacks waiting to fire (each one calls \<^verbatim>\<open>_executeTask\<close>), the
  promises handed to callers, the dispatched tasks still in flight, the heap of argument
  objects, the logger's lines and the rejections that no handler took. Two fields are
  records of what happened, which the code never reads: \<open>submissions\<close> lists the tasks
  created by \<^verbatim>\<open>call\<close>, in order, and \<open>history\<close> lists the dispatches (the promise of the
  task shifted off the queue and the dispatch time written in line 86).
\<close>

record world = flow_control +
  clock :: int
  timers :: nat
  promises :: "pstate list"
  running :: "inflight list"
  heap :: heap
  log :: "logline list"
  unhandled :: "jsval list"
  submissions :: "task list"
  history :: "(nat \<times> int) list"

text \<open>
  \<^verbatim>\<open>Date.now()\<close>: the clock never runs backwards; each reading is the previous one plus
  the time \<open>d\<close> that has passed since.
\<close>

definition date_now :: "nat \<Rightarrow> world \<Rightarrow> int \<times> world" where
  "date_now d w = (clock w + int d, w\<lparr>clock := clock w + int d\<rparr>)"

text \<open>The constructor (lines 15 to 37), started at time \<open>t0\<close> over the heap \<open>h0\<close>.\<close>

definition FlowControl :: "rat \<Rightarrow> string \<Rightarrow> int \<Rightarrow> heap \<Rightarrow> world" where
  "FlowControl mf nm t0 h0 =
     \<lparr>count = 0, maxFlow = mf, minInterval = js_div (60 * 1000) mf, name = nm,
      lastExecuteTime = 0, taskQueue = [], totalTime = 0, total = 0,
      clock = t0, timers = 0, promises = [], running = [], heap = h0, log = [],
      unhandled = [], submissions = [], history = []\<rparr>"

definition setTimeout :: "world \<Rightarrow> world" where
  "setTimeout w = w\<lparr>timers := timers w + 1\<rparr>"

definition createTask :: "callable \<Rightarrow> jsval list \<Rightarrow> nat \<Rightarrow> task" where
  "createTask c as p = \<lparr>caller = c, args = as, promise = p\<rparr>"

text \<open>\<^verbatim>\<open>call\<close> (lines 45 to 58): the new promise's index and the state after its executor.\<close>

definition call :: "callable \<Rightarrow> jsval list \<Rightarrow> world \<Rightarrow> nat \<times> world" where
  "call c as w =
     (let p = length (promises w);
          w1 = w\<lparr>promises := promises w @ [Pending]\<rparr>;
          t = createTask c as p;
          w2 = (if int (length (taskQueue w1)) \<le> 0 then setTimeout w1 else w1)
      in (p, w2\<lparr>taskQueue := taskQueue w2 @ [t], submissions := submissions w2 @ [t]\<rparr>))"

text \<open>
  The synchronous part of the caller's function \<^verbatim>\<open>caller(...args)\<close>, as far as the queue
  sees it: its own calls of \<^verbatim>\<open>call\<close>, in order.
\<close>

definition invoke :: "callable \<Rightarrow> world \<Rightarrow> world" where
  "invoke c w = fold (\<lambda>s v. snd (call (fst s) (snd s) v)) (submits c) w"

text \<open>\<^verbatim>\<open>_checkFlow\<close> (lines 60 to 74).\<close>

definition checkFlow :: "nat \<Rightarrow> world \<Rightarrow> bool \<times> world" where
  "checkFlow d w =
     (if maxFlow w > 0 then
        (let (now, w1) = date_now d w in
         if js_less (of_int (now - lastExecuteTime w1)) (minInterval w1)
         then (False, w1)
         else (True, w1\<lparr>lastExecuteTime := now\<rparr>))
      else (True, w))"

text \<open>
  Running the task closure (lines 126 to 157). An exception leaves at the point where it
  is thrown: \<^verbatim>\<open>this._count++\<close> in line 156 is then not reached.
\<close>

definition runTask :: "task \<Rightarrow> nat \<Rightarrow> world \<Rightarrow> jsval option \<times> world" where
  "runTask t d w =
     (let (beginTime, w1) = date_now d w;
          w2 = invoke (caller t) w1
      in case result (caller t) of
        Throws e \<Rightarrow> (Some e, w2)
      | ReturnsNonThenable \<Rightarrow> (Some (String ''TypeError''), w2)
      | ReturnsAwaitable \<Rightarrow>
         (None, w2\<lparr>count := count w2 + 1,
                   running := running w2 @
                     [\<lparr>r_promise = promise t, r_beginTime = beginTime, r_args = args t,
                       r_settled = False\<rparr>]\<rparr>))"

text \<open>
  The \<^verbatim>\<open>try\<close> block of \<^verbatim>\<open>_executeTask\<close> (lines 77 to 104): the exception thrown in it,
  if any, and the state it leaves.
\<close>

definition tryBlock :: "nat \<Rightarrow> nat \<Rightarrow> nat \<Rightarrow> world \<Rightarrow> jsval option \<times> world" where
  "tryBlock d1 d2 d3 w =
     (case taskQueue w of
        [] \<Rightarrow> (None, w)
      | t # rest \<Rightarrow>
         (let (ok, w1) = checkFlow d1 w in
          if ok = False then (None, w1)
          else
            (let (now, w2) = date_now d2 w1;
                 w3 = w2\<lparr>lastExecuteTime := now\<rparr>;
                 w4 = w3\<lparr>taskQueue := rest, history := history w3 @ [(promise t, now)]\<rparr>;
                 (thrown, w5) = runTask t d3 w4
             in case thrown of
                  Some e \<Rightarrow> (Some e, w5)
                | None \<Rightarrow>
                   (let averageTime =
                          (if total w5 > 0
                           then of_int (totalTime w5) / of_int (total w5) / 1000 else 0)
                    in (None, w5\<lparr>log := log w5 @
                          [Debug_execute (count w5) (length (taskQueue w5)) averageTime]\<rparr>)))))"

text \<open>\<^verbatim>\<open>_executeTask\<close> (lines 76 to 114).\<close>

definition executeTask :: "nat \<Rightarrow> nat \<Rightarrow> nat \<Rightarrow> world \<Rightarrow> world" where
  "executeTask d1 d2 d3 w =
     (let (thrown, w1) = tryBlock d1 d2 d3 w;
          w2 = (case thrown of
                  None \<Rightarrow> w1
                | Some e \<Rightarrow> w1\<lparr>log := log w1 @ [Error_unknown e]\<rparr>)
      in if length (taskQueue w2) > 0 then setTimeout w2 else w2)"

text \<open>
  The reactions \<^verbatim>\<open>.then(resolve).catch(reject)\<close> (lines 130 and 131): a promise that
  is no longer pending ignores \<^verbatim>\<open>resolve\<close> and \<^verbatim>\<open>reject\<close>.
\<close>

definition settlePromise :: "nat \<Rightarrow> outcome \<Rightarrow> pstate list \<Rightarrow> pstate list" where
  "settlePromise p oc ps =
     (if p < length ps \<and> ps ! p = Pending
      then ps[p := (case oc of Resolves v \<Rightarrow> Fulfilled v | Rejects e \<Rightarrow> Rejected e)]
      else ps)"

definition thenCatch :: "nat \<Rightarrow> outcome \<Rightarrow> world \<Rightarrow> world" where
  "thenCatch p oc w =
     w\<lparr>promises := settlePromise p oc (promises w),
       running := map (\<lambda>r. if r_promise r = p then r\<lparr>r_settled := True\<rparr> else r) (running w)\<rparr>"

text \<open>
  The \<^verbatim>\<open>finally\<close> callback (lines 132 to 155) of the in-flight task \<open>r\<close>: the exception
  it throws, if any, and the state it leaves. An exception inside \<^verbatim>\<open>args.map\<close> leaves
  the callback after \<^verbatim>\<open>this._count--\<close> and before everything else.
\<close>

definition finallyCallback :: "inflight \<Rightarrow> nat \<Rightarrow> world \<Rightarrow> jsval option \<times> world" where
  "finallyCallback r d w =
     (let w1 = w\<lparr>count := count w - 1\<rparr>;
          (thrown, h) = stripArgs (heap w1) (r_args r);
          w2 = w1\<lparr>heap := h\<rparr>
      in case thrown of
           Some e \<Rightarrow> (Some e, w2)
         | None \<Rightarrow>
            (let outputArgs = r_args r;
                 (now, w3) = date_now d w2;
                 executeime = now - r_beginTime r;
                 w4 = w3\<lparr>total := total w3 + 1\<rparr>;
                 w5 = w4\<lparr>totalTime := totalTime w4 + executeime\<rparr>
             in (None, w5\<lparr>log := log w5 @
                   [Debug_finish (count w5) (length (taskQueue w5)) outputArgs
                      (of_int executeime / 1000)]\<rparr>)))"

text \<open>
  The runtime around the \<^verbatim>\<open>finally\<close> reaction: once the callback has run the task is
  no longer in flight, and an exception of the callback rejects the promise that
  \<^verbatim>\<open>finally\<close> returned, which has no handler.
\<close>

definition finallyReaction :: "inflight \<Rightarrow> nat \<Rightarrow> world \<Rightarrow> world" where
  "finallyReaction r d w =
     (let (thrown, w1) = finallyCallback r d w;
          w2 = w1\<lparr>running := filter (\<lambda>x. r_promise x \<noteq> r_promise r) (running w1)\<rparr>
      in case thrown of
           None \<Rightarrow> w2
         | Some e \<Rightarrow> w2\<lparr>unhandled := unhandled w2 @ [e]\<rparr>)"

section \<open>The event loop\<close>

text \<open>
  What can happen to the queue, one event at a time:
  \<^item> a caller submits a function and its arguments;
  \<^item> a \<^verbatim>\<open>setTimeout\<close> callback fires, with the time that passes before each of the
    three clock readings of the tick (lines 63, 86 and 127);
  \<^item> the promise returned by a dispatched function settles, and the \<^verbatim>\<open>then\<close>/\<^verbatim>\<open>catch\<close>
    reactions run;
  \<^item> the \<^verbatim>\<open>finally\<close> reaction of a settled task runs, with the time that has passed
    before its clock reading (line 141), which is not reached if the callback throws.
  An event that the runtime cannot deliver in a state (no timer is waiting, the task is
  not in flight, its promise has settled already) has no successor.
\<close>

datatype event =
    Call callable "jsval list"
  | Timeout nat nat nat
  | Settle nat outcome
  | Finally nat nat

fun step :: "world \<Rightarrow> event \<Rightarrow> world option" where
  "step w (Call c as) = Some (snd (call c as w))"
| "step w (Timeout d1 d2 d3) =
     (if timers w = 0 then None
      else Some (executeTask d1 d2 d3 (w\<lparr>timers := timers w - 1\<rparr>)))"
| "step w (Settle p oc) =
     (case find (\<lambda>r. r_promise r = p) (running w) of
        None \<Rightarrow> None
      | Some r \<Rightarrow> if r_settled r then None else Some (thenCatch p oc w))"
| "step w (Finally p d) =
     (case find (\<lambda>r. r_promise r = p) (running w) of
        None \<Rightarrow> None
      | Some r \<Rightarrow> if r_settled r then Some (finallyReaction r d w) else None)"

fun run :: "world \<Rightarrow> event list \<Rightarrow> world option" where
  "run w [] = Some w"
| "run w (e # es) = (case step w e of None \<Rightarrow> None | Some w' \<Rightarrow> run w' es)"

section \<open>Auxiliary notions\<close>

text \<open>
  What a tick does splits on four questions, named here: does the flow check hold the
  task back (\<open>flowBlocked\<close>), what does the clock show after it (\<open>flowClock\<close>),
  which tasks does the invoked function submit (\<open>spawn\<close>, numbered from the next free
  promise), and what does it throw (\<open>thrown\<close>). \<open>average\<close> is the running average of
  line 92.
\<close>

fun thrown :: "result \<Rightarrow> jsval option" where
  "thrown (Throws e) = Some e"
| "thrown ReturnsNonThenable = Some (String ''TypeError'')"
| "thrown ReturnsAwaitable = None"

definition flowClock :: "nat \<Rightarrow> world \<Rightarrow> int" where
  "flowClock d w = (if maxFlow w > 0 then clock w + int d else clock w)"

definition flowBlocked :: "nat \<Rightarrow> world \<Rightarrow> bool" where
  "flowBlocked d w = (maxFlow w > 0 \<and>
     js_less (of_int (clock w + int d - lastExecuteTime w)) (minInterval w))"

definition average :: "world \<Rightarrow> rat" where
  "average w = (if total w > 0 then of_int (totalTime w) / of_int (total w) / 1000 else 0)"

fun spawned :: "nat \<Rightarrow> (callable \<times> jsval list) list \<Rightarrow> task list" where
  "spawned n [] = []"
| "spawned n (s # ss) = \<lparr>caller = fst s, args = snd s, promise = n\<rparr> # spawned (Suc n) ss"

definition spawn :: "task \<Rightarrow> world \<Rightarrow> task list" where
  "spawn t w = spawned (length (promises w)) (submits (caller t))"

text \<open>
  A task whose function breaks the contract of \<^verbatim>\<open>call\<close> (it does not return a promise),
  a task whose function submits to the queue while it is invoked, the error lines of the
  log, the events that are ticks of the loop, the events that are runs of a settlement
  handler, and the lines the handler logs.
\<close>

definition failing :: "task \<Rightarrow> bool" where
  "failing t = (result (caller t) \<noteq> ReturnsAwaitable)"

definition reentrant :: "task \<Rightarrow> bool" where
  "reentrant t = (submits (caller t) \<noteq> [])"

fun is_error :: "logline \<Rightarrow> bool" where
  "is_error (Error_unknown e) = True"
| "is_error l = False"

fun is_tick :: "event \<Rightarrow> bool" where
  "is_tick (Timeout d1 d2 d3) = True"
| "is_tick e = False"

fun is_handler :: "event \<Rightarrow> bool" where
  "is_handler (Finally p d) = True"
| "is_handler e = False"

fun is_finish :: "logline \<Rightarrow> bool" where
  "is_finish (Debug_finish c n as t) = True"
| "is_finish l = False"

text \<open>
  Invariants of the reachable states: a tick is scheduled while tasks wait, and exactly
  then if no dispatched function has submitted during its invocation; the counter counts
  the tasks in flight; promises are numbered in submission order, the dispatched ones
  first, and the queue is what is left of the submissions; a waiting or unsettled task's
  promise is pending; no task began in the future; dispatch times are spaced by the
  interval; dispatches, failures and handler runs add up to the counter; a task in
  flight carries the arguments of its submission; an object of the heap is as it was or
  has lost its token.
\<close>

definition loop_inv :: "world \<Rightarrow> bool" where
  "loop_inv w = (taskQueue w \<noteq> [] \<longrightarrow> 0 < timers w)"

definition dispatched :: "world \<Rightarrow> task list" where
  "dispatched w = take (length (history w)) (submissions w)"

definition single_loop_inv :: "world \<Rightarrow> bool" where
  "single_loop_inv w = ((\<forall>t\<in>set (dispatched w). \<not> reentrant t) \<longrightarrow>
     timers w = (if taskQueue w = [] then 0 else 1))"

definition count_inv :: "world \<Rightarrow> bool" where
  "count_inv w = (count w = int (length (running w)))"

definition ids_inv :: "world \<Rightarrow> bool" where
  "ids_inv w = (map fst (history w) = [0..<length (history w)]
     \<and> map promise (taskQueue w) = [length (history w)..<length (promises w)]
     \<and> length (history w) \<le> length (promises w)
     \<and> distinct (map r_promise (running w))
     \<and> (\<forall>r\<in>set (running w). r_promise r < length (history w)))"

definition fifo_inv :: "world \<Rightarrow> bool" where
  "fifo_inv w = (taskQueue w = drop (length (history w)) (submissions w)
     \<and> map promise (submissions w) = [0..<length (promises w)])"

definition pending_inv :: "world \<Rightarrow> bool" where
  "pending_inv w = ((\<forall>t\<in>set (taskQueue w). promises w ! promise t = Pending)
     \<and> (\<forall>r\<in>set (running w). \<not> r_settled r \<longrightarrow> promises w ! r_promise r = Pending))"

definition time_inv :: "world \<Rightarrow> bool" where
  "time_inv w = (\<forall>r\<in>set (running w). r_beginTime r \<le> clock w)"

definition spacing_inv :: "world \<Rightarrow> bool" where
  "spacing_inv w = ((history w \<noteq> [] \<longrightarrow> lastExecuteTime w = snd (last (history w)))
     \<and> (0 < maxFlow w \<longrightarrow> (\<forall>i. Suc i < length (history w) \<longrightarrow>
           \<not> js_less (of_int (snd (history w ! Suc i) - snd (history w ! i))) (minInterval w))))"

definition config_inv :: "rat \<Rightarrow> world \<Rightarrow> bool" where
  "config_inv M w = (maxFlow w = M \<and> minInterval w = js_div (60 * 1000) M)"

definition acct_inv :: "world \<Rightarrow> bool" where
  "acct_inv w =
     (count w = int (length (history w)) - int (length (filter failing (dispatched w)))
        - total w - int (length (unhandled w))
      \<and> length (filter is_error (log w)) = length (filter failing (dispatched w)))"

definition args_inv :: "world \<Rightarrow> bool" where
  "args_inv w = (\<forall>r\<in>set (running w).
     r_promise r < length (submissions w) \<and> r_args r = args (submissions w ! r_promise r))"

definition heap_inv :: "heap \<Rightarrow> world \<Rightarrow> bool" where
  "heap_inv h0 w = (\<forall>a. heap w a = h0 a \<or>
     (Object a \<in> set (concat (map args (submissions w)))
        \<and> heap w a = map_option deleteToken (h0 a)))"

definition all_inv :: "rat \<Rightarrow> heap \<Rightarrow> world \<Rightarrow> bool" where
  "all_inv M h0 w = (config_inv M w \<and> loop_inv w \<and> single_loop_inv w \<and> ids_inv w \<and> fifo_inv w
     \<and> count_inv w \<and> pending_inv w \<and> time_inv w \<and> spacing_inv w \<and> acct_inv w
     \<and> args_inv w \<and> heap_inv h0 w)"

text \<open>A promise whose task was dispatched and is not in flight: no handler is left for it.\<close>

definition dead :: "nat \<Rightarrow> world \<Rightarrow> bool" where
  "dead p w = (p < length (history w) \<and> (\<forall>r\<in>set (running w). r_promise r \<noteq> p))"

section \<open>Example runs\<close>

text \<open>A function that returns a promise and submits nothing while it is invoked.\<close>

definition plain :: callable where
  "plain = Callable [] ReturnsAwaitable"

text \<open>An unlimited queue after two submissions.\<close>

definition unlimited_two :: world where
  "unlimited_two =
     the (run (FlowControl 0 ''q'' 1000 Map.empty) [Call plain [], Call plain []])"

text \<open>
  Sixty per minute: the first task goes at once, a tick 999 ms later is held back, a tick
  one millisecond after that dispatches the second task.
\<close>

definition spaced_events :: "event list" where
  "spaced_events =
     [Call plain [], Call plain [], Timeout 0 0 0, Timeout 999 0 0, Timeout 1 0 0]"

definition spaced_two :: world where
  "spaced_two = the (run (FlowControl 60 ''q'' 5000 Map.empty) spaced_events)"

text \<open>
  Two tasks dispatched, the second settles first and is finished, a third is submitted
  afterwards.
\<close>

definition mixed_events :: "event list" where
  "mixed_events =
     [Call plain [Number 1], Call plain [Number 2],
      Timeout 0 0 0, Timeout 0 0 0, Settle 1 (Resolves (Number 20)), Finally 1 5,
      Call plain [Number 3]]"

definition mixed_run :: world where
  "mixed_run = the (run (FlowControl 0 ''q'' 1000 Map.empty) mixed_events)"

text \<open>A task whose promise was rejected and whose settlement handler has not run yet.\<close>

definition settled_events :: "event list" where
  "settled_events = [Call plain [Number 1], Timeout 0 0 0, Settle 0 (Rejects Null)]"

definition settled_run :: world where
  "settled_run = the (run (FlowControl 0 ''q'' 1000 Map.empty) settled_events)"

text \<open>A function that throws at the head of the queue, a well-behaved one behind it.\<close>

definition throwing_events :: "event list" where
  "throwing_events = [Call (Callable [] (Throws (String ''boom''))) [], Call plain []]"

definition throwing_run :: world where
  "throwing_run = the (run (FlowControl 0 ''q'' 1000 Map.empty) throwing_events)"

text \<open>
  Three objects with a token. A task is submitted with the first and the second among
  its arguments; the state after its promise is fulfilled, and the state after its
  settlement handler has run.
\<close>

definition token_heap :: heap where
  "token_heap = Map.empty
     (0 \<mapsto> \<lparr>props = [(''token'', String ''secret''), (''id'', Number 1)],
              nullProto = False, sealed = False\<rparr>,
      1 \<mapsto> \<lparr>props = [(''token'', String ''other'')], nullProto = False, sealed = False\<rparr>,
      2 \<mapsto> \<lparr>props = [(''token'', String ''kept'')], nullProto = False, sealed = False\<rparr>)"

definition token_events :: "event list" where
  "token_events =
     [Call plain [Object 0, Number 7, Object 1], Timeout 0 0 0, Settle 0 (Resolves Null)]"

definition token_settled :: world where
  "token_settled = the (run (FlowControl 0 ''q'' 1000 token_heap) token_events)"

definition token_run :: world where
  "token_run = the (run (FlowControl 0 ''q'' 1000 token_heap) (token_events @ [Finally 0 0]))"

text \<open>
  A task whose argument is an object without prototype (\<^verbatim>\<open>Object.create(null)\<close>), from
  submission to settlement.
\<close>

definition bare_heap :: heap where
  "bare_heap = Map.empty(0 \<mapsto> \<lparr>props = [], nullProto = True, sealed = False\<rparr>)"

definition bare_events :: "event list" where
  "bare_events =
     [Call plain [Object 0], Timeout 0 0 0, Settle 0 (Resolves Null), Finally 0 5]"

definition bare_run :: world where
  "bare_run = the (run (FlowControl 0 ''q'' 1000 bare_heap) bare_events)"

text \<open>The same task with an ordinary object as its argument.\<close>

definition ordinary_run :: world where
  "ordinary_run = the (run (FlowControl 0 ''q'' 1000 token_heap) bare_events)"

text \<open>A function that throws, dispatched by one tick.\<close>

definition thrown_events :: "event list" where
  "thrown_events = [Call (Callable [] (Throws (String ''boom''))) [], Timeout 0 0 0]"

definition thrown_run :: world where
  "thrown_run = the (run (FlowControl 0 ''q'' 1000 Map.empty) thrown_events)"

text \<open>
  A function that will submit a task when it is invoked waits in the queue, behind a
  function that has been dispatched.
\<close>

definition waiting_events :: "event list" where
  "waiting_events =
     [Call plain [], Call (Callable [(plain, [])] ReturnsAwaitable) [], Timeout 0 0 0]"

definition waiting_reentrant :: world where
  "waiting_reentrant = the (run (FlowControl 0 ''q'' 1000 Map.empty) waiting_events)"

text \<open>
  A function that submits a second task while it is invoked: the first tick dispatches
  it, the second tick dispatches the task it submitted.
\<close>

definition reentrant_events :: "event list" where
  "reentrant_events =
     [Call (Callable [(plain, [])] ReturnsAwaitable) [], Timeout 0 0 0, Timeout 0 0 0]"

definition reentrant_run :: world where
  "reentrant_run = the (run (FlowControl 0 ''q'' 1000 Map.empty) reentrant_events)"

section \<open>Running a trace\<close>

lemmas eval_defs = FlowControl_def call_def createTask_def setTimeout_def checkFlow_def date_now_def
  runTask_def invoke_def tryBlock_def executeTask_def settlePromise_def thenCatch_def
  finallyCallback_def finallyReaction_def js_div_def deleteToken_def stripArg_def Let_def

lemma run_snoc: "run w (es @ [e]) = (case run w es of None \<Rightarrow> None | Some w' \<Rightarrow> step w' e)"
  by (induction es arbitrary: w) (auto split: option.splits)

lemma run_append: "run w (es @ fs) = (case run w es of None \<Rightarrow> None | Some w' \<Rightarrow> run w' fs)"
  by (induction es arbitrary: w) (auto split: option.splits)

section \<open>Closed forms of the operations\<close>

lemma checkFlow_fst: "fst (checkFlow d w) = (\<not> flowBlocked d w)"
  by (simp add: checkFlow_def flowBlocked_def date_now_def Let_def)

lemma checkFlow_shut: "flowBlocked d w \<Longrightarrow> checkFlow d w = (False, w\<lparr>clock := clock w + int d\<rparr>)"
  by (simp add: checkFlow_def flowBlocked_def date_now_def Let_def)

lemma checkFlow_open: "\<not> flowBlocked d w \<Longrightarrow>
  checkFlow d w = (True, if maxFlow w > 0 then w\<lparr>clock := clock w + int d, lastExecuteTime := clock w + int d\<rparr> else w)"
  by (simp add: checkFlow_def flowBlocked_def date_now_def Let_def)

lemma call_eq: "snd (call c as w) =
  w\<lparr>promises := promises w @ [Pending],
    taskQueue := taskQueue w @ [\<lparr>caller = c, args = as, promise = length (promises w)\<rparr>],
    submissions := submissions w @ [\<lparr>caller = c, args = as, promise = length (promises w)\<rparr>],
    timers := (if taskQueue w = [] then timers w + 1 else timers w)\<rparr>"
  by (simp add: call_def createTask_def setTimeout_def Let_def)

lemma fold_call_eq:
  "fold (\<lambda>s v. snd (call (fst s) (snd s) v)) ss w =
   w\<lparr>promises := promises w @ replicate (length ss) Pending,
     taskQueue := taskQueue w @ spawned (length (promises w)) ss,
     submissions := submissions w @ spawned (length (promises w)) ss,
     timers := (if taskQueue w = [] \<and> ss \<noteq> [] then timers w + 1 else timers w)\<rparr>"
proof (induction ss arbitrary: w)
  case Nil
  then show ?case by simp
next
  case (Cons s ss)
  define v where "v = snd (call (fst s) (snd s) w)"
  have "fold (\<lambda>s v. snd (call (fst s) (snd s) v)) (s # ss) w =
      fold (\<lambda>s v. snd (call (fst s) (snd s) v)) ss v"
    by (simp add: v_def)
  also have "\<dots> = v\<lparr>promises := promises v @ replicate (length ss) Pending,
     taskQueue := taskQueue v @ spawned (length (promises v)) ss,
     submissions := submissions v @ spawned (length (promises v)) ss,
     timers := (if taskQueue v = [] \<and> ss \<noteq> [] then timers v + 1 else timers v)\<rparr>"
    by (rule Cons.IH)
  also have "\<dots> = w\<lparr>promises := promises w @ replicate (length (s # ss)) Pending,
     taskQueue := taskQueue w @ spawned (length (promises w)) (s # ss),
     submissions := submissions w @ spawned (length (promises w)) (s # ss),
     timers := (if taskQueue w = [] \<and> s # ss \<noteq> [] then timers w + 1 else timers w)\<rparr>"
    by (simp add: v_def call_eq replicate_append_same)
  finally show ?case .
qed

lemma invoke_eq:
  "invoke (caller t) w =
   w\<lparr>promises := promises w @ replicate (length (spawn t w)) Pending,
     taskQueue := taskQueue w @ spawn t w,
     submissions := submissions w @ spawn t w,
     timers := (if taskQueue w = [] \<and> spawn t w \<noteq> [] then timers w + 1 else timers w)\<rparr>"
proof -
  have "length (spawned n ss) = length ss" for n ss
    by (induction ss arbitrary: n) auto
  moreover have "(spawned n ss = []) = (ss = [])" for n ss
    by (cases ss) auto
  ultimately show ?thesis by (simp add: invoke_def fold_call_eq spawn_def)
qed

lemma spawn_clock [simp]: "spawn t (w\<lparr>clock := c\<rparr>) = spawn t w"
  by (simp add: spawn_def)

lemma spawn_timers [simp]: "spawn t (w\<lparr>timers := n\<rparr>) = spawn t w"
  by (simp add: spawn_def)

lemma runTask_thrown: "thrown (result (caller t)) = Some e \<Longrightarrow>
  runTask t d w = (Some e, invoke (caller t) (w\<lparr>clock := clock w + int d\<rparr>))"
  by (cases "result (caller t)") (simp_all add: runTask_def date_now_def Let_def)

lemma runTask_started: "thrown (result (caller t)) = None \<Longrightarrow>
  runTask t d w = (None, (invoke (caller t) (w\<lparr>clock := clock w + int d\<rparr>))
     \<lparr>count := count w + 1,
      running := running w @ [\<lparr>r_promise = promise t, r_beginTime = clock w + int d,
        r_args = args t, r_settled = False\<rparr>]\<rparr>)"
  by (cases "result (caller t)") (simp_all add: runTask_def date_now_def Let_def invoke_eq)

lemma executeTask_idle: "taskQueue w = [] \<Longrightarrow> executeTask d1 d2 d3 w = w"
  by (simp add: executeTask_def tryBlock_def)

lemma executeTask_blocked: "taskQueue w = t # rest \<Longrightarrow> flowBlocked d1 w \<Longrightarrow>
  executeTask d1 d2 d3 w = w\<lparr>clock := clock w + int d1, timers := timers w + 1\<rparr>"
  by (simp add: executeTask_def tryBlock_def checkFlow_shut setTimeout_def)

lemma executeTask_threw: "taskQueue w = t # rest \<Longrightarrow> \<not> flowBlocked d1 w \<Longrightarrow>
  thrown (result (caller t)) = Some e \<Longrightarrow>
  executeTask d1 d2 d3 w = w\<lparr>clock := flowClock d1 w + int d2 + int d3,
     lastExecuteTime := flowClock d1 w + int d2,
     taskQueue := rest @ spawn t w,
     promises := promises w @ replicate (length (spawn t w)) Pending,
     submissions := submissions w @ spawn t w,
     history := history w @ [(promise t, flowClock d1 w + int d2)],
     log := log w @ [Error_unknown e],
     timers := (if rest = [] then (if spawn t w = [] then timers w else timers w + 2)
                else timers w + 1)\<rparr>"
  by (simp add: executeTask_def tryBlock_def checkFlow_open setTimeout_def runTask_thrown
      invoke_eq date_now_def flowClock_def spawn_def)

lemma executeTask_started: "taskQueue w = t # rest \<Longrightarrow> \<not> flowBlocked d1 w \<Longrightarrow>
  thrown (result (caller t)) = None \<Longrightarrow>
  executeTask d1 d2 d3 w = w\<lparr>clock := flowClock d1 w + int d2 + int d3,
     lastExecuteTime := flowClock d1 w + int d2,
     taskQueue := rest @ spawn t w,
     promises := promises w @ replicate (length (spawn t w)) Pending,
     submissions := submissions w @ spawn t w,
     history := history w @ [(promise t, flowClock d1 w + int d2)],
     count := count w + 1,
     running := running w @ [\<lparr>r_promise = promise t,
        r_beginTime = flowClock d1 w + int d2 + int d3, r_args = args t, r_settled = False\<rparr>],
     log := log w @ [Debug_execute (count w + 1) (length (rest @ spawn t w)) (average w)],
     timers := (if rest = [] then (if spawn t w = [] then timers w else timers w + 2)
                else timers w + 1)\<rparr>"
  by (simp add: executeTask_def tryBlock_def checkFlow_open setTimeout_def runTask_started
      invoke_eq date_now_def flowClock_def average_def spawn_def)

lemma flowBlocked_timers [simp]: "flowBlocked d (w\<lparr>timers := n\<rparr>) = flowBlocked d w"
  by (simp add: flowBlocked_def)

lemma flowClock_timers [simp]: "flowClock d (w\<lparr>timers := n\<rparr>) = flowClock d w"
  by (simp add: flowClock_def)

lemma average_timers [simp]: "average (w\<lparr>timers := n\<rparr>) = average w"
  by (simp add: average_def)

lemma finallyReaction_done: "fst (stripArgs (heap w) (r_args r)) = None \<Longrightarrow>
  finallyReaction r d w =
  w\<lparr>count := count w - 1, heap := snd (stripArgs (heap w) (r_args r)),
    clock := clock w + int d,
    total := total w + 1, totalTime := totalTime w + (clock w + int d - r_beginTime r),
    log := log w @ [Debug_finish (count w - 1) (length (taskQueue w)) (r_args r)
       (of_int (clock w + int d - r_beginTime r) / 1000)],
    running := filter (\<lambda>x. r_promise x \<noteq> r_promise r) (running w)\<rparr>"
  by (cases "stripArgs (heap w) (r_args r)")
     (simp add: finallyReaction_def finallyCallback_def date_now_def Let_def)

lemma finallyReaction_threw: "fst (stripArgs (heap w) (r_args r)) = Some x \<Longrightarrow>
  finallyReaction r d w =
  w\<lparr>count := count w - 1, heap := snd (stripArgs (heap w) (r_args r)),
    unhandled := unhandled w @ [x],
    running := filter (\<lambda>x. r_promise x \<noteq> r_promise r) (running w)\<rparr>"
  by (cases "stripArgs (heap w) (r_args r)")
     (simp add: finallyReaction_def finallyCallback_def date_now_def Let_def)

lemma step_cases
  [consumes 1, case_names Call Idle Blocked Threw Started Settle Finally Aborted]:
  assumes "step w e = Some w'"
  obtains
    (Call) c as where "e = Call c as"
      "w' = w\<lparr>promises := promises w @ [Pending],
         taskQueue := taskQueue w @ [\<lparr>caller = c, args = as, promise = length (promises w)\<rparr>],
         submissions := submissions w @ [\<lparr>caller = c, args = as, promise = length (promises w)\<rparr>],
         timers := (if taskQueue w = [] then timers w + 1 else timers w)\<rparr>"
  | (Idle) d1 d2 d3 where "e = Timeout d1 d2 d3" "timers w > 0" "taskQueue w = []"
      "w' = w\<lparr>timers := timers w - 1\<rparr>"
  | (Blocked) d1 d2 d3 t rest where "e = Timeout d1 d2 d3" "timers w > 0"
      "taskQueue w = t # rest" "flowBlocked d1 w" "w' = w\<lparr>clock := clock w + int d1\<rparr>"
  | (Threw) d1 d2 d3 t rest x where "e = Timeout d1 d2 d3" "timers w > 0"
      "taskQueue w = t # rest" "\<not> flowBlocked d1 w" "thrown (result (caller t)) = Some x"
      "w' = w\<lparr>clock := flowClock d1 w + int d2 + int d3,
         lastExecuteTime := flowClock d1 w + int d2,
         taskQueue := rest @ spawn t w,
         promises := promises w @ replicate (length (spawn t w)) Pending,
         submissions := submissions w @ spawn t w,
         history := history w @ [(promise t, flowClock d1 w + int d2)],
         log := log w @ [Error_unknown x],
         timers := (if rest = [] then (if spawn t w = [] then timers w - 1 else timers w + 1)
                    else timers w)\<rparr>"
  | (Started) d1 d2 d3 t rest where "e = Timeout d1 d2 d3" "timers w > 0"
      "taskQueue w = t # rest" "\<not> flowBlocked d1 w" "thrown (result (caller t)) = None"
      "w' = w\<lparr>clock := flowClock d1 w + int d2 + int d3,
         lastExecuteTime := flowClock d1 w + int d2,
         taskQueue := rest @ spawn t w,
         promises := promises w @ replicate (length (spawn t w)) Pending,
         submissions := submissions w @ spawn t w,
         history := history w @ [(promise t, flowClock d1 w + int d2)],
         count := count w + 1,
         running := running w @ [\<lparr>r_promise = promise t,
            r_beginTime = flowClock d1 w + int d2 + int d3, r_args = args t,
            r_settled = False\<rparr>],
         log := log w @ [Debug_execute (count w + 1) (length (rest @ spawn t w)) (average w)],
         timers := (if rest = [] then (if spawn t w = [] then timers w - 1 else timers w + 1)
                    else timers w)\<rparr>"
  | (Settle) p oc r where "e = Settle p oc"
      "find (\<lambda>r. r_promise r = p) (running w) = Some r" "\<not> r_settled r"
      "w' = w\<lparr>promises := settlePromise p oc (promises w),
         running := map (\<lambda>r. if r_promise r = p then r\<lparr>r_settled := True\<rparr> else r) (running w)\<rparr>"
  | (Finally) p d r where "e = Finally p d"
      "find (\<lambda>r. r_promise r = p) (running w) = Some r" "r_settled r"
      "fst (stripArgs (heap w) (r_args r)) = None"
      "w' = w\<lparr>count := count w - 1, heap := snd (stripArgs (heap w) (r_args r)),
         clock := clock w + int d, total := total w + 1,
         totalTime := totalTime w + (clock w + int d - r_beginTime r),
         log := log w @ [Debug_finish (count w - 1) (length (taskQueue w)) (r_args r)
            (of_int (clock w + int d - r_beginTime r) / 1000)],
         running := filter (\<lambda>x. r_promise x \<noteq> r_promise r) (running w)\<rparr>"
  | (Aborted) p d r x where "e = Finally p d"
      "find (\<lambda>r. r_promise r = p) (running w) = Some r" "r_settled r"
      "fst (stripArgs (heap w) (r_args r)) = Some x"
      "w' = w\<lparr>count := count w - 1, heap := snd (stripArgs (heap w) (r_args r)),
         unhandled := unhandled w @ [x],
         running := filter (\<lambda>x. r_promise x \<noteq> r_promise r) (running w)\<rparr>"
proof (cases e)
  case (Call c as)
  with assms have "w' = snd (call c as w)" by simp
  then show ?thesis using Call that(1) by (simp add: call_eq)
next
  case (Timeout d1 d2 d3)
  with assms have pos: "timers w > 0"
    and w': "w' = executeTask d1 d2 d3 (w\<lparr>timers := timers w - 1\<rparr>)"
    by (auto split: if_splits)
  show ?thesis
  proof (cases "taskQueue w")
    case Nil
    then show ?thesis using Timeout pos w' that(2) by (simp add: executeTask_idle)
  next
    case (Cons t rest)
    show ?thesis
    proof (cases "flowBlocked d1 w")
      case True
      then have "w' = w\<lparr>clock := clock w + int d1\<rparr>"
        using w' Cons pos by (simp add: executeTask_blocked [where t = t and rest = rest])
      then show ?thesis using Timeout pos Cons True that(3) by blast
    next
      case False
      show ?thesis
      proof (cases "thrown (result (caller t))")
        case None
        show ?thesis
          using that(5) [OF Timeout pos Cons False None] w' Cons pos False None
          by (simp add: executeTask_started [where t = t and rest = rest])
      next
        case (Some x)
        show ?thesis
          using that(4) [OF Timeout pos Cons False Some] w' Cons pos False Some
          by (simp add: executeTask_threw [where t = t and rest = rest])
      qed
    qed
  qed
next
  case (Settle p oc)
  with assms show ?thesis using that(6) [of p oc]
    by (auto simp: thenCatch_def split: option.splits if_splits)
next
  case (Finally p d)
  with assms obtain r where f: "find (\<lambda>r. r_promise r = p) (running w) = Some r"
    and st: "r_settled r" and w': "w' = finallyReaction r d w"
    by (auto split: option.splits if_splits)
  show ?thesis
  proof (cases "fst (stripArgs (heap w) (r_args r))")
    case None
    from that(7) [OF Finally f st None] w' None show ?thesis
      by (simp add: finallyReaction_done)
  next
    case (Some x)
    from that(8) [OF Finally f st Some] w' Some show ?thesis
      by (simp add: finallyReaction_threw)
  qed
qed

text \<open>The tasks a function submits are numbered from the next free promise.\<close>

lemma length_spawned [simp]: "length (spawned n ss) = length ss"
  by (induction ss arbitrary: n) auto

lemma promise_spawned: "map promise (spawned n ss) = [n..<n + length ss]"
proof (induction ss arbitrary: n)
  case Nil
  then show ?case by simp
next
  case (Cons s ss)
  have "n < n + length (s # ss)" by simp
  from upt_conv_Cons [OF this]
  have "[n..<n + length (s # ss)] = n # [Suc n..<Suc n + length ss]"
    by (simp del: upt_Suc)
  then show ?case using Cons.IH [of "Suc n"] by (simp del: upt_Suc)
qed

lemma promise_spawn: "map promise (spawn t w) =
  [length (promises w)..<length (promises w) + length (spawn t w)]"
  by (simp add: spawn_def promise_spawned)

lemma spawn_Nil: "\<not> reentrant t \<Longrightarrow> spawn t w = []"
  by (simp add: reentrant_def spawn_def)

lemma spawn_promise_ge: "s \<in> set (spawn t w) \<Longrightarrow> length (promises w) \<le> promise s
  \<and> promise s < length (promises w) + length (spawn t w)"
proof -
  assume "s \<in> set (spawn t w)"
  then have "promise s \<in> set (map promise (spawn t w))" by simp
  then show ?thesis by (simp add: promise_spawn)
qed

section \<open>Invariants\<close>

lemma run_invariant:
  assumes "P w" and "\<And>w e w'. P w \<Longrightarrow> step w e = Some w' \<Longrightarrow> P w'"
    and "run w es = Some w'"
  shows "P w'"
  using assms(1,3)
proof (induction es arbitrary: w)
  case Nil
  then show ?case by simp
next
  case (Cons e es)
  then show ?case by (auto split: option.splits intro: assms(2))
qed

lemma config_inv_step: "config_inv M w \<Longrightarrow> step w e = Some w' \<Longrightarrow> config_inv M w'"
  by (erule step_cases) (simp_all add: config_inv_def)

lemma loop_inv_step: "loop_inv w \<Longrightarrow> step w e = Some w' \<Longrightarrow> loop_inv w'"
  by (erule step_cases) (auto simp: loop_inv_def split: if_splits)

lemma submissions_grow: "step w e = Some w' \<Longrightarrow> set (submissions w) \<subseteq> set (submissions w')"
  by (erule step_cases) auto

lemma find_length_filter:
  "find (\<lambda>r. r_promise r = p) rs = Some r \<Longrightarrow> distinct (map r_promise rs) \<Longrightarrow>
   length (filter (\<lambda>x. r_promise x \<noteq> r_promise r) rs) + 1 = length rs"
proof (induction rs)
  case Nil
  then show ?case by simp
next
  case (Cons a rs)
  show ?case
  proof (cases "r_promise a = p")
    case True
    with Cons.prems have "a = r" by simp
    moreover have "\<forall>x\<in>set rs. r_promise x \<noteq> r_promise a"
      using Cons.prems(2) by (auto simp: image_iff)
    then have "filter (\<lambda>x. r_promise x \<noteq> r_promise a) rs = rs"
      by (simp add: filter_id_conv)
    ultimately show ?thesis by simp
  next
    case False
    with Cons.prems have "find (\<lambda>r. r_promise r = p) rs = Some r" "distinct (map r_promise rs)"
      by auto
    from Cons.IH [OF this] have ih: "length (filter (\<lambda>x. r_promise x \<noteq> r_promise r) rs) + 1 = length rs" .
    have "r_promise r = p" using \<open>find _ rs = Some r\<close> by (auto simp: find_Some_iff)
    with False ih show ?thesis by simp
  qed
qed

lemma settled_promise [simp]:
  "r_promise \<circ> (\<lambda>r. if r_promise r = p then r\<lparr>r_settled := True\<rparr> else r) = r_promise"
  by (auto simp: fun_eq_iff)

lemma upt_Cons_eq: "x # xs = [h..<n] \<Longrightarrow> x = h \<and> xs = [Suc h..<n] \<and> h < n"
  by (cases "h < n") (auto simp: upt_conv_Cons)

lemma upt_append_upt: "i \<le> j \<Longrightarrow> [i..<j] @ [j..<j + k] = [i..<j + k]"
  by (rule upt_add_eq_append [symmetric])

lemma head_id:
  assumes "ids_inv w" "taskQueue w = t # rest"
  shows "promise t = length (history w) \<and> map promise rest = [Suc (length (history w))..<length (promises w)]
    \<and> length (history w) < length (promises w)"
proof -
  from assms have "promise t # map promise rest = [length (history w)..<length (promises w)]"
    by (simp add: ids_inv_def)
  from upt_Cons_eq [OF this] show ?thesis by simp
qed

lemma ids_inv_step: "ids_inv w \<Longrightarrow> step w e = Some w' \<Longrightarrow> ids_inv w'"
proof (erule step_cases, goal_cases)
  case (1 c as)
  then show ?case by (auto simp: ids_inv_def)
next
  case (2 d1 d2 d3)
  then show ?case by (auto simp: ids_inv_def)
next
  case (3 d1 d2 d3 t rest)
  then show ?case by (auto simp: ids_inv_def)
next
  case (4 d1 d2 d3 t rest x)
  from head_id [OF 4(1) 4(4)] have h: "promise t = length (history w)"
    "map promise rest = [Suc (length (history w))..<length (promises w)]"
    "length (history w) < length (promises w)" by auto
  then have "map promise (rest @ spawn t w) =
      [Suc (length (history w))..<length (promises w) + length (spawn t w)]"
    by (simp add: promise_spawn upt_append_upt)
  with h 4 show ?case by (auto simp: ids_inv_def)
next
  case (5 d1 d2 d3 t rest)
  from head_id [OF 5(1) 5(4)] have h: "promise t = length (history w)"
    "map promise rest = [Suc (length (history w))..<length (promises w)]"
    "length (history w) < length (promises w)" by auto
  then have "map promise (rest @ spawn t w) =
      [Suc (length (history w))..<length (promises w) + length (spawn t w)]"
    by (simp add: promise_spawn upt_append_upt)
  with h 5 show ?case by (fastforce simp: ids_inv_def)
next
  case (6 p oc r)
  then show ?case by (auto simp: ids_inv_def settlePromise_def)
next
  case (7 p d r)
  then show ?case by (auto simp: ids_inv_def distinct_map_filter)
next
  case (8 p d r x)
  then show ?case by (auto simp: ids_inv_def distinct_map_filter)
qed

lemma count_inv_step: "ids_inv w \<Longrightarrow> count_inv w \<Longrightarrow> step w e = Some w' \<Longrightarrow> count_inv w'"
proof (erule step_cases [where w = w and e = e and w' = w'], goal_cases)
  case (7 p d r)
  then have "length (filter (\<lambda>x. r_promise x \<noteq> r_promise r) (running w)) + 1 = length (running w)"
    by (intro find_length_filter [where p = p]) (auto simp: ids_inv_def)
  with 7 show ?case by (auto simp: count_inv_def)
next
  case (8 p d r x)
  then have "length (filter (\<lambda>x. r_promise x \<noteq> r_promise r) (running w)) + 1 = length (running w)"
    by (intro find_length_filter [where p = p]) (auto simp: ids_inv_def)
  with 8 show ?case by (auto simp: count_inv_def)
qed (auto simp: count_inv_def)

lemma queue_ids: "ids_inv w \<Longrightarrow> t \<in> set (taskQueue w) \<Longrightarrow>
  length (history w) \<le> promise t \<and> promise t < length (promises w)"
proof -
  assume a: "ids_inv w" "t \<in> set (taskQueue w)"
  then have "promise t \<in> set (map promise (taskQueue w))" by simp
  also have "map promise (taskQueue w) = [length (history w)..<length (promises w)]"
    using a(1) by (simp add: ids_inv_def)
  finally show ?thesis by simp
qed

lemma running_ids: "ids_inv w \<Longrightarrow> r \<in> set (running w) \<Longrightarrow>
  r_promise r < length (history w) \<and> r_promise r < length (promises w)"
  by (auto simp: ids_inv_def)

lemma find_running: "find (\<lambda>r. r_promise r = p) rs = Some r \<Longrightarrow> r \<in> set rs \<and> r_promise r = p"
  by (auto simp: find_Some_iff)

lemma settlePromise_other: "q \<noteq> p \<Longrightarrow> settlePromise p oc ps ! q = ps ! q"
  by (simp add: settlePromise_def)

lemma length_settlePromise [simp]: "length (settlePromise p oc ps) = length ps"
  by (simp add: settlePromise_def)

lemma spawn_pending:
  assumes "s \<in> set (spawn t w)"
  shows "(promises w @ replicate (length (spawn t w)) Pending) ! promise s = Pending"
proof -
  from spawn_promise_ge [OF assms] have a: "length (promises w) \<le> promise s"
    and b: "promise s - length (promises w) < length (spawn t w)" by auto
  from a have "(promises w @ replicate (length (spawn t w)) Pending) ! promise s =
      replicate (length (spawn t w)) Pending ! (promise s - length (promises w))"
    by (simp add: nth_append)
  with b show ?thesis by simp
qed

lemma pending_inv_step:
  assumes "ids_inv w" "pending_inv w" "step w e = Some w'"
  shows "pending_inv w'"
  using assms(3)
proof (cases rule: step_cases)
  case (Call c as)
  have "\<And>t. t \<in> set (taskQueue w) \<Longrightarrow> (promises w @ [Pending]) ! promise t = Pending"
    using queue_ids [OF assms(1)] assms(2) by (simp add: pending_inv_def nth_append)
  moreover have "\<And>r. r \<in> set (running w) \<Longrightarrow> \<not> r_settled r \<Longrightarrow>
      (promises w @ [Pending]) ! r_promise r = Pending"
    using running_ids [OF assms(1)] assms(2) by (simp add: pending_inv_def nth_append)
  ultimately show ?thesis using Call by (auto simp: pending_inv_def)
next
  case (Idle d1 d2 d3)
  then show ?thesis using assms(2) by (simp add: pending_inv_def)
next
  case (Blocked d1 d2 d3 t rest)
  then show ?thesis using assms(2) by (simp add: pending_inv_def)
next
  case (Threw d1 d2 d3 t rest x)
  let ?ps = "promises w @ replicate (length (spawn t w)) Pending"
  have old: "\<And>s. s \<in> set rest \<Longrightarrow> ?ps ! promise s = Pending"
    using queue_ids [OF assms(1)] assms(2) Threw(3) by (simp add: pending_inv_def nth_append)
  have new: "\<And>s. s \<in> set (spawn t w) \<Longrightarrow> ?ps ! promise s = Pending"
    by (rule spawn_pending)
  have run: "\<And>r. r \<in> set (running w) \<Longrightarrow> \<not> r_settled r \<Longrightarrow> ?ps ! r_promise r = Pending"
    using running_ids [OF assms(1)] assms(2) by (simp add: pending_inv_def nth_append)
  from old new run show ?thesis using Threw by (auto simp: pending_inv_def)
next
  case (Started d1 d2 d3 t rest)
  let ?ps = "promises w @ replicate (length (spawn t w)) Pending"
  have old: "\<And>s. s \<in> set rest \<Longrightarrow> ?ps ! promise s = Pending"
    using queue_ids [OF assms(1)] assms(2) Started(3) by (simp add: pending_inv_def nth_append)
  have hd: "?ps ! promise t = Pending"
    using queue_ids [OF assms(1), of t] assms(2) Started(3) by (simp add: pending_inv_def nth_append)
  have new: "\<And>s. s \<in> set (spawn t w) \<Longrightarrow> ?ps ! promise s = Pending"
    by (rule spawn_pending)
  have run: "\<And>r. r \<in> set (running w) \<Longrightarrow> \<not> r_settled r \<Longrightarrow> ?ps ! r_promise r = Pending"
    using running_ids [OF assms(1)] assms(2) by (simp add: pending_inv_def nth_append)
  from old hd new run show ?thesis using Started by (auto simp: pending_inv_def)
next
  case (Settle p oc r)
  from find_running [OF Settle(2)] have r: "r \<in> set (running w)" "r_promise r = p" by auto
  have "\<And>t. t \<in> set (taskQueue w) \<Longrightarrow> promise t \<noteq> p"
    using queue_ids [OF assms(1)] running_ids [OF assms(1) r(1)] r(2) by fastforce
  then have "\<And>t. t \<in> set (taskQueue w) \<Longrightarrow> settlePromise p oc (promises w) ! promise t = Pending"
    using assms(2) by (simp add: pending_inv_def settlePromise_other)
  moreover have "\<And>x. x \<in> set (running w) \<Longrightarrow> r_promise x \<noteq> p \<Longrightarrow> \<not> r_settled x \<Longrightarrow>
      settlePromise p oc (promises w) ! r_promise x = Pending"
    using assms(2) by (simp add: pending_inv_def settlePromise_other)
  ultimately show ?thesis using Settle by (auto simp: pending_inv_def)
next
  case (Finally p d r)
  then show ?thesis using assms(2) by (simp add: pending_inv_def)
next
  case (Aborted p d r x)
  then show ?thesis using assms(2) by (simp add: pending_inv_def)
qed

lemma flowClock_ge: "clock w \<le> flowClock d w"
  by (simp add: flowClock_def)

lemma time_inv_step:
  assumes "time_inv w" "step w e = Some w'"
  shows "time_inv w'"
  using assms(2)
proof (cases rule: step_cases)
  case (Threw d1 d2 d3 t rest x)
  then show ?thesis using assms(1) flowClock_ge [of w d1] by (fastforce simp: time_inv_def)
next
  case (Started d1 d2 d3 t rest)
  then show ?thesis using assms(1) flowClock_ge [of w d1] by (fastforce simp: time_inv_def)
qed (use assms(1) in \<open>fastforce simp: time_inv_def\<close>)+

lemma js_less_mono: "x \<le> y \<Longrightarrow> js_less y m \<Longrightarrow> js_less x m"
  by (cases m) auto

lemma spacing_append:
  assumes "spacing_inv w" "\<not> flowBlocked d1 w"
    and h': "h' = history w @ [(p, flowClock d1 w + int d2)]"
    and i: "Suc i < length h'" and pos: "0 < maxFlow w"
  shows "\<not> js_less (of_int (snd (h' ! Suc i) - snd (h' ! i))) (minInterval w)"
proof (cases "Suc i < length (history w)")
  case True
  then show ?thesis using assms(1) pos h' by (simp add: spacing_inv_def nth_append)
next
  case False
  with i h' have eq: "Suc i = length (history w)" by simp
  then have ne: "history w \<noteq> []" by auto
  have "history w ! i = last (history w)"
    using eq ne by (metis diff_Suc_1 last_conv_nth)
  then have a: "snd (h' ! i) = lastExecuteTime w"
    using assms(1) ne eq h' by (simp add: spacing_inv_def nth_append)
  have b: "snd (h' ! Suc i) = clock w + int d1 + int d2"
    using eq h' pos by (simp add: nth_append flowClock_def)
  have "\<not> js_less (of_int (clock w + int d1 - lastExecuteTime w)) (minInterval w)"
    using assms(2) pos by (simp add: flowBlocked_def)
  moreover have "(of_int (clock w + int d1 - lastExecuteTime w) :: rat)
      \<le> of_int (clock w + int d1 + int d2 - lastExecuteTime w)"
    by simp
  ultimately show ?thesis using a b js_less_mono by metis
qed

lemma spacing_inv_step:
  assumes "spacing_inv w" "step w e = Some w'"
  shows "spacing_inv w'"
  using assms(2)
proof (cases rule: step_cases)
  case (Threw d1 d2 d3 t rest x)
  then show ?thesis using assms(1) spacing_append [OF assms(1) Threw(4) refl]
    by (simp add: spacing_inv_def)
next
  case (Started d1 d2 d3 t rest)
  then show ?thesis using assms(1) spacing_append [OF assms(1) Started(4) refl]
    by (simp add: spacing_inv_def)
qed (use assms(1) in \<open>simp_all add: spacing_inv_def\<close>)

text \<open>The queue is what is left of the submissions.\<close>

lemma drop_Cons_nth: "x # xs = drop h ys \<Longrightarrow> h < length ys \<and> ys ! h = x \<and> xs = drop (Suc h) ys"
proof -
  assume a: "x # xs = drop h ys"
  then have "drop h ys \<noteq> []" by auto
  then have lt: "h < length ys" by simp
  from a have "hd (drop h ys) = x" by (metis list.sel(1))
  with lt have "ys ! h = x" by (simp add: hd_drop_conv_nth)
  moreover from a have "xs = drop (Suc h) ys" by (metis drop_Suc list.sel(3) tl_drop)
  ultimately show ?thesis using lt by simp
qed

lemma head_submission:
  assumes "fifo_inv w" "taskQueue w = t # rest"
  shows "length (history w) < length (submissions w) \<and> submissions w ! length (history w) = t
    \<and> rest = drop (Suc (length (history w))) (submissions w)"
proof -
  from assms have "t # rest = drop (length (history w)) (submissions w)"
    by (simp add: fifo_inv_def)
  from drop_Cons_nth [OF this] show ?thesis .
qed

lemma fifo_length: "fifo_inv w \<Longrightarrow> length (submissions w) = length (promises w)"
proof -
  assume "fifo_inv w"
  then have "length (map promise (submissions w)) = length [0..<length (promises w)]"
    by (simp add: fifo_inv_def)
  then show ?thesis by simp
qed

lemma fifo_inv_step:
  assumes "ids_inv w" "fifo_inv w" "step w e = Some w'"
  shows "fifo_inv w'"
proof -
  have le: "length (history w) \<le> length (submissions w)"
    using assms(1) fifo_length [OF assms(2)] by (simp add: ids_inv_def)
  have len: "length (submissions w) = length (promises w)" by (rule fifo_length [OF assms(2)])
  from assms(3) show ?thesis
  proof (cases rule: step_cases)
    case (Call c as)
    then show ?thesis using assms(2) le by (simp add: fifo_inv_def)
  next
    case (Threw d1 d2 d3 t rest x)
    from head_submission [OF assms(2) Threw(3)]
    have r: "rest = drop (Suc (length (history w))) (submissions w)"
      and lt: "length (history w) < length (submissions w)" by auto
    have "map promise (submissions w @ spawn t w) =
        [0..<length (promises w) + length (spawn t w)]"
      using assms(2) by (simp add: fifo_inv_def promise_spawn upt_append_upt)
    then show ?thesis using Threw r lt by (simp add: fifo_inv_def)
  next
    case (Started d1 d2 d3 t rest)
    from head_submission [OF assms(2) Started(3)]
    have r: "rest = drop (Suc (length (history w))) (submissions w)"
      and lt: "length (history w) < length (submissions w)" by auto
    have "map promise (submissions w @ spawn t w) =
        [0..<length (promises w) + length (spawn t w)]"
      using assms(2) by (simp add: fifo_inv_def promise_spawn upt_append_upt)
    then show ?thesis using Started r lt by (simp add: fifo_inv_def)
  qed (use assms(2) in \<open>simp_all add: fifo_inv_def\<close>)
qed

text \<open>Dispatches, failures and settlements add up to the counter.\<close>

lemma dispatched_step:
  assumes "fifo_inv w" "taskQueue w = t # rest"
  shows "take (Suc (length (history w))) (submissions w @ new) = dispatched w @ [t]"
proof -
  from head_submission [OF assms] have lt: "length (history w) < length (submissions w)"
    and t: "submissions w ! length (history w) = t" by auto
  then show ?thesis by (simp add: take_Suc_conv_app_nth dispatched_def)
qed

lemma history_le:
  assumes "ids_inv w" "fifo_inv w"
  shows "length (history w) \<le> length (submissions w)"
  using assms(1) fifo_length [OF assms(2)] by (simp add: ids_inv_def)

lemma failing_thrown: "failing t = (thrown (result (caller t)) \<noteq> None)"
  by (cases "result (caller t)") (simp_all add: failing_def)

lemma dispatched_step_cases:
  assumes "ids_inv w" "fifo_inv w" "step w e = Some w'"
  shows "dispatched w' = dispatched w \<and> length (history w') = length (history w)
    \<or> (\<exists>t rest d1. taskQueue w = t # rest \<and> \<not> flowBlocked d1 w \<and> is_tick e
          \<and> dispatched w' = dispatched w @ [t]
          \<and> length (history w') = Suc (length (history w)))"
  using assms(3)
proof (cases rule: step_cases)
  case (Call c as)
  then show ?thesis using history_le [OF assms(1,2)] by (simp add: dispatched_def)
next
  case (Threw d1 d2 d3 t rest x)
  then show ?thesis using dispatched_step [OF assms(2) Threw(3), of "spawn t w"]
    by (auto simp: dispatched_def)
next
  case (Started d1 d2 d3 t rest)
  then show ?thesis using dispatched_step [OF assms(2) Started(3), of "spawn t w"]
    by (auto simp: dispatched_def)
qed (simp_all add: dispatched_def)

lemma acct_inv_step:
  assumes "ids_inv w" "fifo_inv w" "acct_inv w" "step w e = Some w'"
  shows "acct_inv w'"
  using assms(4)
proof (cases rule: step_cases)
  case (Call c as)
  then have "dispatched w' = dispatched w"
    using history_le [OF assms(1,2)] by (simp add: dispatched_def)
  then show ?thesis using Call assms(3) by (simp add: acct_inv_def)
next
  case (Threw d1 d2 d3 t rest x)
  then have "failing t" by (simp add: failing_thrown)
  moreover have "dispatched w' = dispatched w @ [t]"
    using Threw dispatched_step [OF assms(2) Threw(3), of "spawn t w"]
    by (simp add: dispatched_def)
  ultimately show ?thesis using Threw assms(3) by (simp add: acct_inv_def)
next
  case (Started d1 d2 d3 t rest)
  then have "\<not> failing t" by (simp add: failing_thrown)
  moreover have "dispatched w' = dispatched w @ [t]"
    using Started dispatched_step [OF assms(2) Started(3), of "spawn t w"]
    by (simp add: dispatched_def)
  ultimately show ?thesis using Started assms(3) by (simp add: acct_inv_def)
qed (use assms(3) in \<open>simp_all add: acct_inv_def dispatched_def\<close>)

text \<open>Tasks in flight carry the arguments of their submission.\<close>

lemma args_inv_step:
  assumes "ids_inv w" "fifo_inv w" "args_inv w" "step w e = Some w'"
  shows "args_inv w'"
  using assms(4)
proof (cases rule: step_cases)
  case (Call c as)
  then show ?thesis using assms(3) by (auto simp: args_inv_def nth_append)
next
  case (Threw d1 d2 d3 t rest x)
  then show ?thesis using assms(3) by (auto simp: args_inv_def nth_append)
next
  case (Started d1 d2 d3 t rest)
  from head_id [OF assms(1) Started(3)] have pt: "promise t = length (history w)" by simp
  from head_submission [OF assms(2) Started(3)] pt
  have "promise t < length (submissions w) \<and> args t = args (submissions w ! promise t)"
    by auto
  then show ?thesis using Started assms(3) by (auto simp: args_inv_def nth_append)
qed (use assms(3) in \<open>auto simp: args_inv_def\<close>)

text \<open>The heap: an object is as the caller supplied it or has lost its token.\<close>

lemma deleteToken_idem: "deleteToken (deleteToken ob) = deleteToken ob"
  by (simp add: deleteToken_def)

lemma deleteToken_no_token: "''token'' \<notin> set (map fst (props ob)) \<Longrightarrow> deleteToken ob = ob"
proof -
  have "filter (\<lambda>p. fst p \<noteq> ''token'') ps = ps" if "''token'' \<notin> set (map fst ps)"
    for ps :: "(string \<times> jsval) list"
    using that by (induction ps) auto
  moreover assume "''token'' \<notin> set (map fst (props ob))"
  ultimately show ?thesis by (simp add: deleteToken_def)
qed

lemma deleteToken_props:
  "''token'' \<notin> set (map fst (props (deleteToken ob)))
   \<and> (\<forall>k. k \<noteq> ''token'' \<longrightarrow> map_of (props (deleteToken ob)) k = map_of (props ob) k)
   \<and> nullProto (deleteToken ob) = nullProto ob \<and> sealed (deleteToken ob) = sealed ob"
proof -
  have "map_of (filter (\<lambda>p. fst p \<noteq> ''token'') ps) k = map_of ps k" if "k \<noteq> ''token''"
    for k and ps :: "(string \<times> jsval) list"
    using that by (induction ps) auto
  then show ?thesis by (auto simp: deleteToken_def)
qed

text \<open>
  What the callback does to one argument when it does not throw: an object argument
  loses its token, everything else stays.
\<close>

lemma stripArg_done:
  assumes "stripArg h v = Inr h'"
  shows "h' a = (if v = Object a then map_option deleteToken (h a) else h a)"
proof (cases v)
  case (Object r)
  show ?thesis
  proof (cases "h r")
    case None
    with assms Object show ?thesis by (auto simp: stripArg_def)
  next
    case (Some ob)
    show ?thesis
    proof (cases "''token'' \<in> set (map fst (props ob))")
      case True
      with assms Object Some show ?thesis
        by (auto simp: stripArg_def split: if_splits)
    next
      case False
      with assms Object Some deleteToken_no_token [OF False] show ?thesis
        by (auto simp: stripArg_def split: if_splits)
    qed
  qed
qed (use assms in \<open>auto simp: stripArg_def split: if_splits\<close>)

lemma map_option_deleteToken_idem:
  "map_option deleteToken (map_option deleteToken x) = map_option deleteToken x"
  by (cases x) (simp_all add: deleteToken_idem)

lemma stripArgs_done:
  "fst (stripArgs h as) = None \<Longrightarrow>
   snd (stripArgs h as) a = (if Object a \<in> set as then map_option deleteToken (h a) else h a)"
proof (induction as arbitrary: h)
  case Nil
  then show ?case by simp
next
  case (Cons v as)
  from Cons.prems obtain h' where s: "stripArg h v = Inr h'"
    and r: "fst (stripArgs h' as) = None"
    by (auto split: sum.splits)
  from Cons.IH [OF r] have ih: "snd (stripArgs h' as) a =
      (if Object a \<in> set as then map_option deleteToken (h' a) else h' a)" .
  from stripArg_done [OF s, of a] have one:
    "h' a = (if v = Object a then map_option deleteToken (h a) else h a)" .
  have "snd (stripArgs h (v # as)) a = snd (stripArgs h' as) a" using s by simp
  with ih one show ?case by (auto simp: map_option_deleteToken_idem)
qed

text \<open>Whether or not it throws, the callback only ever removes tokens of its arguments.\<close>

lemma stripArg_cases:
  assumes "stripArg h v = Inr h'"
  shows "h' a = h a \<or> (v = Object a \<and> h' a = map_option deleteToken (h a))"
  using stripArg_done [OF assms, of a] by auto

lemma stripArgs_cases:
  "snd (stripArgs h as) a = h a
   \<or> (Object a \<in> set as \<and> snd (stripArgs h as) a = map_option deleteToken (h a))"
proof (induction as arbitrary: h)
  case Nil
  then show ?case by simp
next
  case (Cons v as)
  show ?case
  proof (cases "stripArg h v")
    case (Inl e)
    then show ?thesis by simp
  next
    case (Inr h')
    from Cons.IH [of h']
    have ih: "snd (stripArgs h' as) a = h' a \<or>
       (Object a \<in> set as \<and> snd (stripArgs h' as) a = map_option deleteToken (h' a))" .
    have eq: "snd (stripArgs h (v # as)) a = snd (stripArgs h' as) a" using Inr by simp
    from stripArg_cases [OF Inr, of a] show ?thesis
    proof
      assume "h' a = h a"
      with ih eq show ?thesis by auto
    next
      assume b: "v = Object a \<and> h' a = map_option deleteToken (h a)"
      then have "map_option deleteToken (h' a) = map_option deleteToken (h a)"
        by (simp add: map_option_deleteToken_idem)
      with ih eq b show ?thesis by auto
    qed
  qed
qed

lemma heap_after_handler:
  assumes "args_inv w" "heap_inv h0 w"
    and f: "find (\<lambda>r. r_promise r = p) (running w) = Some r"
  shows "snd (stripArgs (heap w) (r_args r)) a = h0 a \<or>
     (Object a \<in> set (concat (map args (submissions w)))
        \<and> snd (stripArgs (heap w) (r_args r)) a = map_option deleteToken (h0 a))"
proof -
  from find_running [OF f] assms(1)
  have r: "r_promise r < length (submissions w)"
    "r_args r = args (submissions w ! r_promise r)"
    by (auto simp: args_inv_def)
  then have "r_args r \<in> set (map args (submissions w))" by simp
  then have sub: "set (r_args r) \<subseteq> set (concat (map args (submissions w)))" by auto
  from assms(2) have old: "heap w a = h0 a \<or>
     (Object a \<in> set (concat (map args (submissions w)))
        \<and> heap w a = map_option deleteToken (h0 a))"
    by (simp add: heap_inv_def)
  from stripArgs_cases [of "heap w" "r_args r" a] show ?thesis
  proof
    assume "snd (stripArgs (heap w) (r_args r)) a = heap w a"
    with old show ?thesis by simp
  next
    assume b: "Object a \<in> set (r_args r) \<and>
      snd (stripArgs (heap w) (r_args r)) a = map_option deleteToken (heap w a)"
    with sub have m: "Object a \<in> set (concat (map args (submissions w)))" by blast
    from old have "map_option deleteToken (heap w a) = map_option deleteToken (h0 a)"
      by (auto simp: map_option_deleteToken_idem)
    with b m show ?thesis by simp
  qed
qed

lemma heap_inv_step:
  assumes "args_inv w" "heap_inv h0 w" "step w e = Some w'"
  shows "heap_inv h0 w'"
  using assms(3)
proof (cases rule: step_cases)
  case (Call c as)
  then show ?thesis using assms(2) by (auto simp: heap_inv_def)
next
  case (Threw d1 d2 d3 t rest x)
  then show ?thesis using assms(2) by (auto simp: heap_inv_def)
next
  case (Started d1 d2 d3 t rest)
  then show ?thesis using assms(2) by (auto simp: heap_inv_def)
next
  case (Finally p d r)
  then show ?thesis using heap_after_handler [OF assms(1,2) Finally(2)]
    by (simp add: heap_inv_def)
next
  case (Aborted p d r x)
  then show ?thesis using heap_after_handler [OF assms(1,2) Aborted(2)]
    by (simp add: heap_inv_def)
qed (use assms(2) in \<open>simp_all add: heap_inv_def\<close>)

text \<open>One loop, as long as no function submits during its invocation.\<close>

lemma queue_submitted: "fifo_inv w \<Longrightarrow> set (taskQueue w) \<subseteq> set (submissions w)"
  by (simp add: fifo_inv_def set_drop_subset)

lemma single_loop_inv_step:
  assumes "ids_inv w" "fifo_inv w" "single_loop_inv w" "step w e = Some w'"
  shows "single_loop_inv w'"
proof (cases "\<forall>t\<in>set (dispatched w'). \<not> reentrant t")
  case False
  then show ?thesis unfolding single_loop_inv_def by blast
next
  case True
  from dispatched_step_cases [OF assms(1,2,4)]
  have sub: "set (dispatched w) \<subseteq> set (dispatched w')" by auto
  with True have "\<forall>t\<in>set (dispatched w). \<not> reentrant t" by blast
  with assms(3) have one: "timers w = (if taskQueue w = [] then 0 else 1)"
    by (simp add: single_loop_inv_def)
  from assms(4) have "timers w' = (if taskQueue w' = [] then 0 else 1)"
  proof (cases rule: step_cases)
    case (Threw d1 d2 d3 t rest x)
    have "dispatched w' = dispatched w @ [t]"
      using Threw dispatched_step [OF assms(2) Threw(3), of "spawn t w"]
      by (simp add: dispatched_def)
    with True have "spawn t w = []" by (simp add: spawn_Nil)
    then show ?thesis using Threw one by simp
  next
    case (Started d1 d2 d3 t rest)
    have "dispatched w' = dispatched w @ [t]"
      using Started dispatched_step [OF assms(2) Started(3), of "spawn t w"]
      by (simp add: dispatched_def)
    with True have "spawn t w = []" by (simp add: spawn_Nil)
    then show ?thesis using Started one by simp
  qed (use one in \<open>auto split: if_splits\<close>)
  then show ?thesis unfolding single_loop_inv_def by blast
qed

lemma all_inv_init: "all_inv M h0 (FlowControl M nm t0 h0)"
  by (simp add: all_inv_def config_inv_def loop_inv_def single_loop_inv_def ids_inv_def
      fifo_inv_def count_inv_def pending_inv_def time_inv_def spacing_inv_def acct_inv_def
      args_inv_def heap_inv_def dispatched_def FlowControl_def)

lemma all_inv_step:
  assumes "all_inv M h0 w" "step w e = Some w'"
  shows "all_inv M h0 w'"
proof -
  from assms(1) have a: "config_inv M w" "loop_inv w" "single_loop_inv w" "ids_inv w"
    "fifo_inv w" "count_inv w" "pending_inv w" "time_inv w" "spacing_inv w" "acct_inv w"
    "args_inv w" "heap_inv h0 w"
    by (simp_all add: all_inv_def)
  show ?thesis
    unfolding all_inv_def
    using config_inv_step [OF a(1) assms(2)] loop_inv_step [OF a(2) assms(2)]
      single_loop_inv_step [OF a(4) a(5) a(3) assms(2)]
      ids_inv_step [OF a(4) assms(2)] fifo_inv_step [OF a(4) a(5) assms(2)]
      count_inv_step [OF a(4) a(6) assms(2)]
      pending_inv_step [OF a(4) a(7) assms(2)] time_inv_step [OF a(8) assms(2)]
      spacing_inv_step [OF a(9) assms(2)] acct_inv_step [OF a(4) a(5) a(10) assms(2)]
      args_inv_step [OF a(4) a(5) a(11) assms(2)] heap_inv_step [OF a(11) a(12) assms(2)]
    by simp
qed

lemma all_inv_run: "all_inv M h0 w \<Longrightarrow> run w es = Some w' \<Longrightarrow> all_inv M h0 w'"
  by (rule run_invariant [where P = "all_inv M h0"]) (auto intro: all_inv_step)

lemma reachable_inv: "run (FlowControl M nm t0 h0) evs = Some w \<Longrightarrow> all_inv M h0 w"
  using all_inv_init all_inv_run by blast

text \<open>
  A task that was dispatched and is no longer in flight stays so, and neither its
  settlement nor its handler can happen.
\<close>

lemma dead_step:
  assumes "ids_inv w" "dead p w" "step w e = Some w'"
  shows "dead p w' \<and> promises w' ! p = promises w ! p"
proof -
  from assms(1,2) have lt: "p < length (promises w)" by (simp add: ids_inv_def dead_def)
  from assms(3) show ?thesis
  proof (cases rule: step_cases)
    case (Call c as)
    then show ?thesis using assms(2) lt by (simp add: dead_def nth_append)
  next
    case (Threw d1 d2 d3 t rest x)
    then show ?thesis using assms(2) lt by (simp add: dead_def nth_append)
  next
    case (Started d1 d2 d3 t rest)
    from head_id [OF assms(1) Started(3)] have "promise t = length (history w)" by simp
    then show ?thesis using Started assms(2) lt by (auto simp: dead_def nth_append)
  next
    case (Settle q oc r)
    from find_running [OF Settle(2)] assms(2) have "p \<noteq> q" by (auto simp: dead_def)
    then show ?thesis using Settle assms(2) by (auto simp: dead_def settlePromise_other)
  qed (use assms(2) in \<open>auto simp: dead_def\<close>)
qed

lemma dead_run:
  "ids_inv w \<Longrightarrow> dead p w \<Longrightarrow> run w es = Some w' \<Longrightarrow>
   dead p w' \<and> promises w' ! p = promises w ! p"
proof (induction es arbitrary: w)
  case Nil
  then show ?case by simp
next
  case (Cons e es)
  from Cons.prems(3) obtain w1 where s: "step w e = Some w1" and r: "run w1 es = Some w'"
    by (auto split: option.splits)
  from dead_step [OF Cons.prems(1,2) s] have a: "dead p w1" "promises w1 ! p = promises w ! p"
    by auto
  from Cons.IH [OF ids_inv_step [OF Cons.prems(1) s] a(1) r] a(2) show ?case by simp
qed

lemma dead_disabled:
  assumes "dead p w"
  shows "step w (Settle p oc) = None \<and> step w (Finally p d) = None"
proof -
  from assms have "find (\<lambda>r. r_promise r = p) (running w) = None"
    by (auto simp: dead_def find_None_iff)
  then show ?thesis by simp
qed

text \<open>
  Every run of a settlement handler decrements the counter, takes its task out of
  flight, and is counted by \<^verbatim>\<open>_total\<close> or leaves an unhandled rejection.
\<close>

lemma finallyReaction_count: "count (finallyReaction r d w) = count w - 1"
proof (cases "fst (stripArgs (heap w) (r_args r))")
  case None
  then show ?thesis by (simp add: finallyReaction_done)
next
  case (Some x)
  then show ?thesis by (simp add: finallyReaction_threw)
qed

lemma finallyReaction_running:
  "running (finallyReaction r d w) = filter (\<lambda>x. r_promise x \<noteq> r_promise r) (running w)"
proof (cases "fst (stripArgs (heap w) (r_args r))")
  case None
  then show ?thesis by (simp add: finallyReaction_done)
next
  case (Some x)
  then show ?thesis by (simp add: finallyReaction_threw)
qed

lemma finallyCallback_count: "count (snd (finallyCallback r d w)) = count w - 1"
  by (cases "stripArgs (heap w) (r_args r)"; cases "fst (stripArgs (heap w) (r_args r))")
     (simp_all add: finallyCallback_def date_now_def Let_def)

lemma handled_step:
  assumes "step w e = Some w'"
  shows "total w' + int (length (unhandled w')) =
    total w + int (length (unhandled w)) + (if is_handler e then 1 else 0)"
  using assms by (cases rule: step_cases) simp_all

lemma handled_run:
  "run w es = Some w' \<Longrightarrow>
   total w' + int (length (unhandled w')) =
     total w + int (length (unhandled w)) + int (length (filter is_handler es))"
proof (induction es arbitrary: w)
  case Nil
  then show ?case by simp
next
  case (Cons e es)
  from Cons.prems obtain w1 where s: "step w e = Some w1" and r: "run w1 es = Some w'"
    by (auto split: option.splits)
  from Cons.IH [OF r] handled_step [OF s] show ?case by simp
qed

text \<open>The handlers of the tasks in flight, run one after the other, leave none in flight.\<close>

lemma finally_all:
  assumes "distinct (map r_promise (running w))" "\<forall>r\<in>set (running w). r_settled r"
  shows "\<exists>w'. run w (map (\<lambda>r. Finally (r_promise r) d) (running w)) = Some w'
    \<and> running w' = []"
  using assms
proof (induction "running w" arbitrary: w)
  case Nil
  then have "run w (map (\<lambda>r. Finally (r_promise r) d) (running w)) = Some w" by simp
  with Nil show ?case by simp
next
  case (Cons r rs)
  from Cons(2) have rw: "running w = r # rs" by simp
  with Cons.prems(2) have st: "r_settled r" by simp
  let ?w1 = "finallyReaction r d w"
  from rw st have s: "step w (Finally (r_promise r) d) = Some ?w1" by simp
  from rw Cons.prems(1) have "r_promise r \<notin> r_promise ` set rs" by simp
  then have "\<forall>x\<in>set rs. r_promise x \<noteq> r_promise r" by (fastforce simp: image_iff)
  then have "filter (\<lambda>x. r_promise x \<noteq> r_promise r) rs = rs" by (simp add: filter_id_conv)
  with rw have r1: "running ?w1 = rs" by (simp add: finallyReaction_running)
  from rw Cons.prems have d1: "distinct (map r_promise (running ?w1))"
    and s1: "\<forall>x\<in>set (running ?w1). r_settled x"
    using r1 by simp_all
  from Cons(1) [OF r1 [symmetric] d1 s1]
  obtain w' where "run ?w1 (map (\<lambda>r. Finally (r_promise r) d) (running ?w1)) = Some w'"
    "running w' = []" by blast
  with s rw r1 have "run w (map (\<lambda>r. Finally (r_promise r) d) (running w)) = Some w'"
    by simp
  with \<open>running w' = []\<close> show ?case by blast
qed

text \<open>The arguments on which the callback throws.\<close>

lemma stripArg_throws:
  "(stripArg h v = Inl x) =
   (\<exists>r ob. v = Object r \<and> h r = Some ob \<and> x = String ''TypeError''
      \<and> (''hasOwnProperty'' \<in> set (map fst (props ob)) \<or> nullProto ob
           \<or> sealed ob \<and> ''token'' \<in> set (map fst (props ob))))"
  by (cases v) (auto simp: stripArg_def split: option.splits if_splits)

text \<open>The handler of a task can run exactly when the task is in flight and has settled.\<close>

lemma finally_enabled:
  assumes "distinct (map r_promise (running w))"
  shows "(step w (Finally p d) \<noteq> None) =
    (\<exists>r\<in>set (running w). r_promise r = p \<and> r_settled r)"
proof
  assume "step w (Finally p d) \<noteq> None"
  then obtain r where "find (\<lambda>r. r_promise r = p) (running w) = Some r" "r_settled r"
    by (auto split: option.splits if_splits)
  with find_running [of p "running w" r] show "\<exists>r\<in>set (running w). r_promise r = p \<and> r_settled r"
    by blast
next
  assume "\<exists>r\<in>set (running w). r_promise r = p \<and> r_settled r"
  then obtain r where r: "r \<in> set (running w)" "r_promise r = p" "r_settled r" by blast
  then have "find (\<lambda>r. r_promise r = p) (running w) \<noteq> None"
    by (auto simp: find_None_iff)
  then obtain r' where f: "find (\<lambda>r. r_promise r = p) (running w) = Some r'" by auto
  from find_running [OF f] have "r' \<in> set (running w)" "r_promise r' = p" by auto
  with r(1,2) assms have "r' = r" by (auto simp: distinct_map dest: inj_onD)
  with f r(3) show "step w (Finally p d) \<noteq> None" by simp
qed

text \<open>What \<^verbatim>\<open>args.map\<close> has done when it stops at an exception.\<close>

lemma stripArgs_threw:
  "fst (stripArgs h as) = Some x \<Longrightarrow>
   \<exists>k<length as. fst (stripArgs h (take k as)) = None
     \<and> stripArg (snd (stripArgs h (take k as))) (as ! k) = Inl x
     \<and> snd (stripArgs h as) = snd (stripArgs h (take k as))"
proof (induction as arbitrary: h)
  case Nil
  then show ?case by simp
next
  case (Cons v as)
  show ?case
  proof (cases "stripArg h v")
    case (Inl e)
    with Cons.prems have "e = x" by simp
    with Inl have "fst (stripArgs h (take 0 (v # as))) = None
     \<and> stripArg (snd (stripArgs h (take 0 (v # as)))) ((v # as) ! 0) = Inl x
     \<and> snd (stripArgs h (v # as)) = snd (stripArgs h (take 0 (v # as)))" by simp
    then show ?thesis by blast
  next
    case (Inr h')
    with Cons.prems have "fst (stripArgs h' as) = Some x" by simp
    from Cons.IH [OF this] obtain k where k: "k < length as"
      "fst (stripArgs h' (take k as)) = None"
      "stripArg (snd (stripArgs h' (take k as))) (as ! k) = Inl x"
      "snd (stripArgs h' as) = snd (stripArgs h' (take k as))" by blast
    with Inr have "Suc k < length (v # as)
     \<and> fst (stripArgs h (take (Suc k) (v # as))) = None
     \<and> stripArg (snd (stripArgs h (take (Suc k) (v # as)))) ((v # as) ! Suc k) = Inl x
     \<and> snd (stripArgs h (v # as)) = snd (stripArgs h (take (Suc k) (v # as)))" by simp
    then show ?thesis by blast
  qed
qed

section \<open>The flow check without a limit\<close>

text \<open>
  Claim C7. For a queue constructed with \<open>maxFlow \<le> 0\<close> (zero or negative)
  \<^verbatim>\<open>_checkFlow\<close> returns true on every evaluation, in every reachable state, and leaves
  the state as it is. So no spacing is enforced: whatever the clock shows, each tick with
  a waiting task shifts the head of the queue and dispatches it.
\<close>

theorem unlimited_flow_always_passes:
  assumes "M \<le> 0" and "run (FlowControl M nm t0 h0) evs = Some w"
  shows "checkFlow d w = (True, w) \<and>
    (\<forall>t rest d1 d2 d3. taskQueue w = t # rest \<longrightarrow>
       (\<exists>w'. step w (Timeout d1 d2 d3) = Some w' \<and> taskQueue w' = rest @ spawn t w
          \<and> history w' = history w @ [(promise t, clock w + int d2)]))"
proof -
  from reachable_inv [OF assms(2)] have inv: "all_inv M h0 w" .
  then have mf: "maxFlow w = M" by (simp add: all_inv_def config_inv_def)
  with assms(1) have pass: "checkFlow d w = (True, w)" by (simp add: checkFlow_def)
  have shut: "\<And>d1. \<not> flowBlocked d1 w" using mf assms(1) by (simp add: flowBlocked_def)
  have gc: "\<And>d1. flowClock d1 w = clock w" using mf assms(1) by (simp add: flowClock_def)
  {
    fix t rest d1 d2 d3
    assume q: "taskQueue w = t # rest"
    with inv have "timers w > 0" by (simp add: all_inv_def loop_inv_def)
    then obtain w' where st: "step w (Timeout d1 d2 d3) = Some w'" by auto
    from st have "taskQueue w' = rest @ spawn t w
        \<and> history w' = history w @ [(promise t, clock w + int d2)]"
      using q shut gc by (cases rule: step_cases) auto
    with st have "\<exists>w'. step w (Timeout d1 d2 d3) = Some w' \<and> taskQueue w' = rest @ spawn t w
          \<and> history w' = history w @ [(promise t, clock w + int d2)]" by blast
  }
  with pass show ?thesis by blast
qed

theorem unlimited_flow_always_passes_witness:
  "(0::rat) \<le> 0 \<and>
   run (FlowControl 0 ''q'' 1000 Map.empty) [Call plain [], Call plain []] = Some unlimited_two \<and>
   checkFlow 7 unlimited_two = (True, unlimited_two) \<and>
   (\<exists>w'. step unlimited_two (Timeout 3 4 5) = Some w'
      \<and> taskQueue w' = [\<lparr>caller = plain, args = [], promise = 1\<rparr>]
      \<and> history w' = [(0, 1004)])"
proof -
  have r: "run (FlowControl 0 ''q'' 1000 Map.empty) [Call plain [], Call plain []]
      = Some unlimited_two"
    by (simp add: unlimited_two_def eval_defs)
  have m: "(0::rat) \<le> 0" by simp
  have q: "taskQueue unlimited_two = \<lparr>caller = plain, args = [], promise = 0\<rparr>
      # [\<lparr>caller = plain, args = [], promise = 1\<rparr>]"
    by (simp add: unlimited_two_def eval_defs)
  have c: "clock unlimited_two = 1000" "history unlimited_two = []"
    "spawn \<lparr>caller = plain, args = [], promise = 0\<rparr> unlimited_two = []"
    by (simp_all add: unlimited_two_def eval_defs spawn_def plain_def)
  from unlimited_flow_always_passes [OF m r, of 7]
  have g: "checkFlow 7 unlimited_two = (True, unlimited_two)"
    and a: "\<forall>t rest d1 d2 d3. taskQueue unlimited_two = t # rest \<longrightarrow>
       (\<exists>w'. step unlimited_two (Timeout d1 d2 d3) = Some w'
          \<and> taskQueue w' = rest @ spawn t unlimited_two
          \<and> history w' = history unlimited_two @ [(promise t, clock unlimited_two + int d2)])"
    by blast+
  from a q have "\<exists>w'. step unlimited_two (Timeout 3 4 5) = Some w'
      \<and> taskQueue w' = [\<lparr>caller = plain, args = [], promise = 1\<rparr>]
           @ spawn \<lparr>caller = plain, args = [], promise = 0\<rparr> unlimited_two
      \<and> history w' = history unlimited_two @
           [(promise \<lparr>caller = plain, args = [], promise = 0\<rparr>,
             clock unlimited_two + int 4)]"
    by blast
  then have "\<exists>w'. step unlimited_two (Timeout 3 4 5) = Some w'
      \<and> taskQueue w' = [\<lparr>caller = plain, args = [], promise = 1\<rparr>]
      \<and> history w' = [(0, 1004)]"
    using c by simp
  with r m g show ?thesis by blast
qed

section \<open>The driving loop and the waiting tasks\<close>

text \<open>
  Claim C8 as stated (no tick is scheduled whenever the queue is empty) fails: a function
  that submits a task to the queue while it is invoked finds the queue empty, so
  \<^verbatim>\<open>call\<close> schedules a tick, and the running tick schedules another one when it ends.
  After the second tick has dispatched the submitted task the queue is empty and one tick
  is still scheduled.
\<close>

theorem idle_loop_counterexample:
  "run (FlowControl 0 ''q'' 1000 Map.empty) reentrant_events = Some reentrant_run \<and>
   taskQueue reentrant_run = [] \<and> timers reentrant_run = 1"
  by (simp add: reentrant_run_def reentrant_events_def plain_def eval_defs)

text \<open>
  Claim C8, as amended. In every reachable state a tick of the driving loop is scheduled
  whenever the queue of waiting tasks is non-empty. \<^verbatim>\<open>call\<close> schedules a tick exactly
  when the queue was empty before its push, and \<^verbatim>\<open>_executeTask\<close>, started in any state,
  ends by scheduling one more tick exactly when the queue it leaves is non-empty. As long
  as no function dispatched so far submits to the queue while it is invoked (whatever the
  functions still waiting will do), exactly one tick is scheduled while the queue is
  non-empty and none while it is empty. A tick that fires on an empty queue changes
  nothing and is not scheduled again.
\<close>

theorem loop_scheduled_while_waiting:
  assumes "run (FlowControl M nm t0 h0) evs = Some w"
  shows "(taskQueue w \<noteq> [] \<longrightarrow> 0 < timers w)
    \<and> ((\<forall>t\<in>set (dispatched w). \<not> reentrant t) \<longrightarrow>
          timers w = (if taskQueue w = [] then 0 else 1))
    \<and> timers (snd (call c as w)) = timers w + (if taskQueue w = [] then 1 else 0)
    \<and> timers (executeTask d1 d2 d3 w) = timers (snd (tryBlock d1 d2 d3 w))
          + (if taskQueue (executeTask d1 d2 d3 w) = [] then 0 else 1)
    \<and> (taskQueue w = [] \<and> 0 < timers w \<longrightarrow>
          step w (Timeout d1 d2 d3) = Some (w\<lparr>timers := timers w - 1\<rparr>))"
proof -
  from reachable_inv [OF assms] have l: "loop_inv w" and s: "single_loop_inv w"
    by (simp_all add: all_inv_def)
  from l have a: "taskQueue w \<noteq> [] \<longrightarrow> 0 < timers w" by (simp add: loop_inv_def)
  from s have b: "(\<forall>t\<in>set (dispatched w). \<not> reentrant t) \<longrightarrow>
          timers w = (if taskQueue w = [] then 0 else 1)"
    unfolding single_loop_inv_def .
  have c: "timers (snd (call c as w)) = timers w + (if taskQueue w = [] then 1 else 0)"
    by (simp add: call_eq)
  have d: "timers (executeTask d1 d2 d3 w) = timers (snd (tryBlock d1 d2 d3 w))
          + (if taskQueue (executeTask d1 d2 d3 w) = [] then 0 else 1)"
    by (simp add: executeTask_def setTimeout_def Let_def split: prod.splits option.splits)
  have e: "taskQueue w = [] \<and> 0 < timers w \<longrightarrow>
          step w (Timeout d1 d2 d3) = Some (w\<lparr>timers := timers w - 1\<rparr>)"
    by (simp add: executeTask_idle)
  from a b c d e show ?thesis by blast
qed

theorem loop_scheduled_while_waiting_witness:
  "run (FlowControl 0 ''q'' 1000 Map.empty) waiting_events = Some waiting_reentrant \<and>
   length (dispatched waiting_reentrant) = 1 \<and>
   (\<exists>t\<in>set (taskQueue waiting_reentrant). reentrant t) \<and>
   taskQueue waiting_reentrant \<noteq> [] \<and> 0 < timers waiting_reentrant \<and>
   timers waiting_reentrant = (if taskQueue waiting_reentrant = [] then 0 else 1) \<and>
   timers (snd (call plain [] waiting_reentrant)) =
     timers waiting_reentrant + (if taskQueue waiting_reentrant = [] then 1 else 0) \<and>
   timers (executeTask 0 0 0 waiting_reentrant) =
     timers (snd (tryBlock 0 0 0 waiting_reentrant))
     + (if taskQueue (executeTask 0 0 0 waiting_reentrant) = [] then 0 else 1)"
proof -
  have r: "run (FlowControl 0 ''q'' 1000 Map.empty) waiting_events = Some waiting_reentrant"
    by (simp add: waiting_reentrant_def waiting_events_def plain_def eval_defs)
  have q: "taskQueue waiting_reentrant \<noteq> []"
    by (simp add: waiting_reentrant_def waiting_events_def plain_def eval_defs)
  have n: "\<forall>t\<in>set (dispatched waiting_reentrant). \<not> reentrant t"
    by (simp add: waiting_reentrant_def waiting_events_def plain_def eval_defs reentrant_def
        dispatched_def)
  have l: "length (dispatched waiting_reentrant) = 1"
    by (simp add: waiting_reentrant_def waiting_events_def plain_def eval_defs dispatched_def)
  have e: "\<exists>t\<in>set (taskQueue waiting_reentrant). reentrant t"
    by (simp add: waiting_reentrant_def waiting_events_def plain_def eval_defs reentrant_def)
  from loop_scheduled_while_waiting [OF r, of plain "[]" 0 0 0] r q n l e
  show ?thesis by blast
qed

section \<open>Spacing of dispatches\<close>

text \<open>
  Claim C1. For a queue constructed with \<open>maxFlow = M > 0\<close>, in every reachable state
  \<^verbatim>\<open>_checkFlow\<close> passes exactly when the time since the last dispatch has reached
  \<open>60000 / M\<close> milliseconds (so it never passes earlier), and any two consecutive
  dispatches of the driving loop are at least \<open>60000 / M\<close> milliseconds apart. The
  dispatch time is the one written to \<^verbatim>\<open>_lastExecuteTime\<close> in line 86; the quotient is
  the exact one.
\<close>

theorem dispatch_spacing:
  assumes "0 < M" and "run (FlowControl M nm t0 h0) evs = Some w"
  shows "(\<forall>d. fst (checkFlow d w) = (60000 / M \<le> of_int (clock w + int d - lastExecuteTime w)))
    \<and> (\<forall>i. Suc i < length (history w) \<longrightarrow>
          60000 / M \<le> of_int (snd (history w ! Suc i) - snd (history w ! i)))"
proof -
  from reachable_inv [OF assms(2)] have inv: "all_inv M h0 w" .
  then have mf: "maxFlow w = M" and mi: "minInterval w = Finite (60000 / M)"
    using assms(1) by (simp_all add: all_inv_def config_inv_def js_div_def)
  have a: "\<And>d. fst (checkFlow d w) = (60000 / M \<le> of_int (clock w + int d - lastExecuteTime w))"
    using mf mi assms(1) by (auto simp: checkFlow_fst flowBlocked_def)
  from inv have "spacing_inv w" by (simp add: all_inv_def)
  then have b: "\<And>i. Suc i < length (history w) \<Longrightarrow>
          60000 / M \<le> of_int (snd (history w ! Suc i) - snd (history w ! i))"
    using mf mi assms(1) by (simp add: spacing_inv_def not_less)
  from a b show ?thesis by blast
qed

theorem dispatch_spacing_witness:
  "(0::rat) < 60 \<and>
   run (FlowControl 60 ''q'' 5000 Map.empty) spaced_events = Some spaced_two \<and>
   history spaced_two = [(0, 5000), (1, 6000)] \<and>
   fst (checkFlow 999 spaced_two) =
     ((60000 / 60 :: rat) \<le> of_int (clock spaced_two + int 999 - lastExecuteTime spaced_two)) \<and>
   fst (checkFlow 999 spaced_two) = False \<and>
   (60000 / 60 :: rat) \<le> of_int (snd (history spaced_two ! Suc 0) - snd (history spaced_two ! 0))"
proof -
  have r: "run (FlowControl 60 ''q'' 5000 Map.empty) spaced_events = Some spaced_two"
    by (simp add: spaced_two_def spaced_events_def plain_def eval_defs)
  have m: "(0::rat) < 60" by simp
  have h: "history spaced_two = [(0, 5000), (1, 6000)]"
    by (simp add: spaced_two_def spaced_events_def plain_def eval_defs)
  have g: "fst (checkFlow 999 spaced_two) = False"
    by (simp add: spaced_two_def spaced_events_def plain_def eval_defs)
  have l: "Suc 0 < length (history spaced_two)" using h by simp
  from dispatch_spacing [OF m r] l g h r m show ?thesis by blast
qed

section \<open>First in, first out\<close>

text \<open>
  Claim C3. Every call of \<^verbatim>\<open>call\<close> appends its task to the submissions and returns the
  promise with the task's number in that list. In every reachable state the dispatched
  tasks are the submissions \<open>0, 1, ..., k - 1\<close>, dispatched in this order, and the queue
  holds the remaining submissions in their order; a tick either dispatches nothing or
  shifts the head of the queue. Settlements may come at any time in the trace: they do
  not touch the order.
\<close>

theorem dispatch_order_is_submission_order:
  assumes "run (FlowControl M nm t0 h0) evs = Some w"
  shows "map fst (history w) = [0..<length (history w)]
    \<and> map promise (submissions w) = [0..<length (submissions w)]
    \<and> taskQueue w = drop (length (history w)) (submissions w)
    \<and> length (history w) \<le> length (submissions w)
    \<and> fst (call c as w) = length (submissions w)
    \<and> submissions (snd (call c as w)) =
        submissions w @ [\<lparr>caller = c, args = as, promise = length (submissions w)\<rparr>]
    \<and> (\<forall>d1 d2 d3 w'. step w (Timeout d1 d2 d3) = Some w' \<longrightarrow>
          (taskQueue w' = taskQueue w \<and> history w' = history w)
        \<or> (\<exists>t rest now. taskQueue w = t # rest \<and> taskQueue w' = rest @ spawn t w
              \<and> history w' = history w @ [(promise t, now)]))"
proof -
  from reachable_inv [OF assms] have ids: "ids_inv w" and f: "fifo_inv w"
    by (simp_all add: all_inv_def)
  have len: "length (submissions w) = length (promises w)" by (rule fifo_length [OF f])
  have a: "map fst (history w) = [0..<length (history w)]"
    using ids by (simp add: ids_inv_def)
  have b: "map promise (submissions w) = [0..<length (submissions w)]"
    using f len by (simp add: fifo_inv_def)
  have c: "taskQueue w = drop (length (history w)) (submissions w)"
    using f by (simp add: fifo_inv_def)
  have d: "length (history w) \<le> length (submissions w)"
    using ids len by (simp add: ids_inv_def)
  have e: "fst (call c as w) = length (submissions w)"
    using len by (simp add: call_def Let_def)
  have g: "submissions (snd (call c as w)) =
        submissions w @ [\<lparr>caller = c, args = as, promise = length (submissions w)\<rparr>]"
    using len by (simp add: call_eq)
  {
    fix d1 d2 d3 w'
    assume "step w (Timeout d1 d2 d3) = Some w'"
    then have "(taskQueue w' = taskQueue w \<and> history w' = history w)
        \<or> (\<exists>t rest now. taskQueue w = t # rest \<and> taskQueue w' = rest @ spawn t w
              \<and> history w' = history w @ [(promise t, now)])"
      by (cases rule: step_cases) auto
  }
  with a b c d e g show ?thesis by blast
qed

theorem dispatch_order_is_submission_order_witness:
  "run (FlowControl 0 ''q'' 1000 Map.empty) mixed_events = Some mixed_run \<and>
   map fst (history mixed_run) = [0, 1] \<and>
   map fst (history mixed_run) = [0..<length (history mixed_run)] \<and>
   map promise (submissions mixed_run) = [0..<length (submissions mixed_run)] \<and>
   taskQueue mixed_run = [\<lparr>caller = plain, args = [Number 3], promise = 2\<rparr>] \<and>
   taskQueue mixed_run = drop (length (history mixed_run)) (submissions mixed_run) \<and>
   fst (call plain [] mixed_run) = length (submissions mixed_run)"
proof -
  have r: "run (FlowControl 0 ''q'' 1000 Map.empty) mixed_events = Some mixed_run"
    by (simp add: mixed_run_def mixed_events_def plain_def eval_defs)
  have h: "map fst (history mixed_run) = [0, 1]"
    by (simp add: mixed_run_def mixed_events_def plain_def eval_defs)
  have q: "taskQueue mixed_run = [\<lparr>caller = plain, args = [Number 3], promise = 2\<rparr>]"
    by (simp add: mixed_run_def mixed_events_def plain_def eval_defs)
  from dispatch_order_is_submission_order [OF r, of plain "[]"] r h q show ?thesis by simp
qed

section \<open>The caller's promise\<close>

lemma settlePromise_settled: "ps ! p \<noteq> Pending \<Longrightarrow> settlePromise p oc ps = ps"
  by (simp add: settlePromise_def)

lemma settlePromise_pending: "p < length ps \<Longrightarrow> ps ! p = Pending \<Longrightarrow>
  settlePromise p oc ps ! p = (case oc of Resolves v \<Rightarrow> Fulfilled v | Rejects e \<Rightarrow> Rejected e)"
  by (simp add: settlePromise_def)

lemma settled_stable_step:
  assumes "p < length (promises w)" "promises w ! p \<noteq> Pending" "step w e = Some w'"
  shows "p < length (promises w') \<and> promises w' ! p = promises w ! p"
  using assms(3)
proof (cases rule: step_cases)
  case (Call c as)
  then show ?thesis using assms(1) by (simp add: nth_append)
next
  case (Threw d1 d2 d3 t rest x)
  then show ?thesis using assms(1) by (simp add: nth_append)
next
  case (Started d1 d2 d3 t rest)
  then show ?thesis using assms(1) by (simp add: nth_append)
next
  case (Settle q oc r)
  show ?thesis
  proof (cases "q = p")
    case True
    then show ?thesis using Settle assms(1,2) by (simp add: settlePromise_settled)
  next
    case False
    then show ?thesis using Settle assms(1) by (simp add: settlePromise_other)
  qed
qed (use assms(1) in simp_all)

lemma settled_stable_run:
  "p < length (promises w) \<Longrightarrow> promises w ! p \<noteq> Pending \<Longrightarrow> run w es = Some w' \<Longrightarrow>
   p < length (promises w') \<and> promises w' ! p = promises w ! p"
proof (induction es arbitrary: w)
  case Nil
  then show ?case by simp
next
  case (Cons e es)
  from Cons.prems(3) obtain w1 where s: "step w e = Some w1" and r: "run w1 es = Some w'"
    by (auto split: option.splits)
  from settled_stable_step [OF Cons.prems(1,2) s]
  have a: "p < length (promises w1)" "promises w1 ! p = promises w ! p" by auto
  with Cons.prems(2) have "promises w1 ! p \<noteq> Pending" by simp
  from Cons.IH [OF a(1) this r] a(2) show ?case by simp
qed

lemma find_mark:
  "find (\<lambda>r. r_promise r = p) (map (\<lambda>r. if r_promise r = p then r\<lparr>r_settled := True\<rparr> else r) rs)
   = map_option (\<lambda>r. r\<lparr>r_settled := True\<rparr>) (find (\<lambda>r. r_promise r = p) rs)"
  by (induction rs) auto

text \<open>
  Claim C2. While a task waits in the queue, and while a dispatched task's own promise
  has not settled, the promise that \<^verbatim>\<open>call\<close> returned for it is pending. When the
  task's promise settles, the caller's promise takes exactly that outcome (fulfilled with
  the same value, or rejected with the same reason), the task cannot settle a second
  time, and the caller's promise keeps that outcome in every later state.
\<close>

theorem promise_mirrors_outcome:
  assumes "run (FlowControl M nm t0 h0) evs = Some w"
    and "find (\<lambda>r. r_promise r = p) (running w) = Some r" and "\<not> r_settled r"
  shows "(\<forall>t\<in>set (taskQueue w). promises w ! promise t = Pending) \<and>
    promises w ! p = Pending \<and>
    (\<exists>w'. step w (Settle p oc) = Some w'
       \<and> promises w' ! p = (case oc of Resolves v \<Rightarrow> Fulfilled v | Rejects e \<Rightarrow> Rejected e)
       \<and> (\<forall>oc'. step w' (Settle p oc') = None)
       \<and> (\<forall>es w''. run w' es = Some w'' \<longrightarrow> promises w'' ! p = promises w' ! p))"
proof -
  from reachable_inv [OF assms(1)] have ids: "ids_inv w" and pend: "pending_inv w"
    by (simp_all add: all_inv_def)
  from pend have wait: "\<forall>t\<in>set (taskQueue w). promises w ! promise t = Pending"
    by (simp add: pending_inv_def)
  from find_running [OF assms(2)] have r: "r \<in> set (running w)" "r_promise r = p" by auto
  from running_ids [OF ids r(1)] r(2) have lt: "p < length (promises w)" by simp
  from pend r assms(3) have pe: "promises w ! p = Pending" by (auto simp: pending_inv_def)
  define w' where "w' = thenCatch p oc w"
  have st: "step w (Settle p oc) = Some w'" using assms(2,3) by (simp add: w'_def)
  have val: "promises w' ! p = (case oc of Resolves v \<Rightarrow> Fulfilled v | Rejects e \<Rightarrow> Rejected e)"
    using settlePromise_pending [OF lt pe] by (simp add: w'_def thenCatch_def)
  then have np: "promises w' ! p \<noteq> Pending" by (cases oc) auto
  have lt': "p < length (promises w')" using lt by (simp add: w'_def thenCatch_def)
  have again: "\<And>oc'. step w' (Settle p oc') = None"
    using assms(2) by (simp add: w'_def thenCatch_def find_mark)
  have stay: "\<And>es w''. run w' es = Some w'' \<Longrightarrow> promises w'' ! p = promises w' ! p"
    using settled_stable_run [OF lt' np] by blast
  from wait pe st val again stay show ?thesis by blast
qed

theorem promise_mirrors_outcome_witness:
  "run (FlowControl 0 ''q'' 1000 Map.empty) mixed_events = Some mixed_run \<and>
   find (\<lambda>r. r_promise r = 0) (running mixed_run) =
     Some \<lparr>r_promise = 0, r_beginTime = 1000, r_args = [Number 1], r_settled = False\<rparr> \<and>
   promises mixed_run ! 0 = Pending \<and>
   (\<exists>w'. step mixed_run (Settle 0 (Rejects (String ''late''))) = Some w'
       \<and> promises w' ! 0 = Rejected (String ''late'')
       \<and> step w' (Settle 0 (Resolves Null)) = None)"
proof -
  have r: "run (FlowControl 0 ''q'' 1000 Map.empty) mixed_events = Some mixed_run"
    by (simp add: mixed_run_def mixed_events_def plain_def eval_defs)
  have f: "find (\<lambda>r. r_promise r = 0) (running mixed_run) =
     Some \<lparr>r_promise = 0, r_beginTime = 1000, r_args = [Number 1], r_settled = False\<rparr>"
    by (simp add: mixed_run_def mixed_events_def plain_def eval_defs)
  have n: "\<not> r_settled \<lparr>r_promise = 0, r_beginTime = 1000, r_args = [Number 1], r_settled = False\<rparr>"
    by simp
  from promise_mirrors_outcome [OF r f n, of "Rejects (String ''late'')"] r f
  show ?thesis by (auto simp del: step.simps run.simps)
qed

section \<open>Bookkeeping at settlement\<close>

text \<open>
  The handler reads the clock only after it has gone through the arguments, and the
  totals are updated after that; neither total ever decreases.
\<close>

lemma mono_step:
  assumes "time_inv w" "step w e = Some w'"
  shows "total w \<le> total w' \<and> totalTime w \<le> totalTime w'"
  using assms(2)
proof (cases rule: step_cases)
  case (Finally p d r)
  from find_running [OF Finally(2)] assms(1) have "r_beginTime r \<le> clock w"
    by (auto simp: time_inv_def)
  then show ?thesis using Finally by simp
qed simp_all

lemma mono_run:
  "time_inv w \<Longrightarrow> run w es = Some w' \<Longrightarrow> total w \<le> total w' \<and> totalTime w \<le> totalTime w'"
proof (induction es arbitrary: w)
  case Nil
  then show ?case by simp
next
  case (Cons e es)
  from Cons.prems(2) obtain w1 where s: "step w e = Some w1" and r: "run w1 es = Some w'"
    by (auto split: option.splits)
  from Cons.IH [OF time_inv_step [OF Cons.prems(1) s] r] mono_step [OF Cons.prems(1) s]
  show ?case by simp
qed

text \<open>
  Claim C9 fails on a task with an argument on which the handler's
  \<^verbatim>\<open>arg.hasOwnProperty("token")\<close> throws. A task is submitted to an unlimited queue with
  one argument, an object without prototype (\<^verbatim>\<open>Object.create(null)\<close>); it is dispatched,
  its promise is fulfilled and the caller's promise with it; five milliseconds later the
  \<^verbatim>\<open>finally\<close> handler runs. It decrements \<^verbatim>\<open>_count\<close> and then throws a \<^verbatim>\<open>TypeError\<close> inside
  \<^verbatim>\<open>args.map\<close>: \<^verbatim>\<open>_total\<close> and \<^verbatim>\<open>_totalTime\<close> stay 0, no line is logged, and the rejection
  of the promise returned by \<^verbatim>\<open>finally\<close> is handled by nobody. The same run with an
  ordinary object as the argument ends with \<^verbatim>\<open>_total\<close> 1 and \<^verbatim>\<open>_totalTime\<close> 5.
\<close>

theorem settlement_handler_throws:
  "run (FlowControl 0 ''q'' 1000 bare_heap) bare_events = Some bare_run \<and>
   promises bare_run = [Fulfilled Null] \<and> running bare_run = [] \<and>
   count bare_run = 0 \<and> total bare_run = 0 \<and> totalTime bare_run = 0 \<and>
   filter is_finish (log bare_run) = [] \<and> unhandled bare_run = [String ''TypeError''] \<and>
   run (FlowControl 0 ''q'' 1000 token_heap) bare_events = Some ordinary_run \<and>
   promises ordinary_run = [Fulfilled Null] \<and> running ordinary_run = [] \<and>
   count ordinary_run = 0 \<and> total ordinary_run = 1 \<and> totalTime ordinary_run = 5 \<and>
   length (filter is_finish (log ordinary_run)) = 1 \<and> unhandled ordinary_run = []"
  by (simp add: bare_run_def ordinary_run_def bare_events_def bare_heap_def token_heap_def
      plain_def eval_defs)

section \<open>Exceptions inside a tick\<close>

lemma tryBlock_throws:
  "(fst (tryBlock d1 d2 d3 w) = Some x) =
   (\<exists>t rest. taskQueue w = t # rest \<and> \<not> flowBlocked d1 w \<and> thrown (result (caller t)) = Some x)"
proof (cases "taskQueue w")
  case Nil
  then show ?thesis by (simp add: tryBlock_def)
next
  case (Cons t rest)
  show ?thesis
  proof (cases "flowBlocked d1 w")
    case True
    then show ?thesis using Cons by (simp add: tryBlock_def checkFlow_shut)
  next
    case False
    show ?thesis
    proof (cases "thrown (result (caller t))")
      case None
      then show ?thesis using Cons False
        by (simp add: tryBlock_def checkFlow_open runTask_started date_now_def Let_def)
    next
      case (Some y)
      then show ?thesis using Cons False
        by (simp add: tryBlock_def checkFlow_open runTask_thrown date_now_def Let_def)
    qed
  qed
qed

text \<open>Whatever the interval, the flow check passes once enough time has passed.\<close>

lemma flow_opens:
  assumes "config_inv M w"
  shows "\<exists>d. \<not> flowBlocked d w"
proof (cases "0 < maxFlow w")
  case False
  then show ?thesis by (simp add: flowBlocked_def)
next
  case True
  with assms have mi: "minInterval w = Finite (60000 / maxFlow w)"
    by (auto simp: config_inv_def js_div_def)
  define q where "q = 60000 / maxFlow w"
  define d where "d = nat (\<lceil>q\<rceil> + lastExecuteTime w - clock w)"
  have "\<lceil>q\<rceil> \<le> clock w + int d - lastExecuteTime w" by (simp add: d_def)
  then have "(of_int \<lceil>q\<rceil> :: rat) \<le> of_int (clock w + int d - lastExecuteTime w)"
    by (simp only: of_int_le_iff)
  moreover have "q \<le> of_int \<lceil>q\<rceil>" by (rule le_of_int_ceiling)
  ultimately have "\<not> of_int (clock w + int d - lastExecuteTime w) < q" by linarith
  then have "\<not> flowBlocked d w" using mi by (simp add: flowBlocked_def q_def)
  then show ?thesis by blast
qed

text \<open>Ticks alone dispatch the first \<open>n\<close> waiting tasks, in order.\<close>

lemma drain:
  "config_inv M w \<Longrightarrow> loop_inv w \<Longrightarrow> n \<le> length (taskQueue w) \<Longrightarrow>
   \<exists>es w'. run w es = Some w' \<and> (\<forall>e\<in>set es. is_tick e)
     \<and> map fst (history w') = map fst (history w) @ map promise (take n (taskQueue w))"
proof (induction n arbitrary: w)
  case 0
  then have "run w [] = Some w \<and> (\<forall>e\<in>set []. is_tick e)
     \<and> map fst (history w) = map fst (history w) @ map promise (take 0 (taskQueue w))"
    by simp
  then show ?case by blast
next
  case (Suc n)
  then obtain t rest where q: "taskQueue w = t # rest" and n: "n \<le> length rest"
    by (cases "taskQueue w") auto
  from flow_opens [OF Suc.prems(1)] obtain d where d: "\<not> flowBlocked d w" by blast
  from q Suc.prems(2) have "timers w > 0" by (simp add: loop_inv_def)
  then obtain w1 where s: "step w (Timeout d 0 0) = Some w1" by auto
  from s have w1: "taskQueue w1 = rest @ spawn t w
      \<and> map fst (history w1) = map fst (history w) @ [promise t]"
    using q d by (cases rule: step_cases) auto
  with n have n1: "n \<le> length (taskQueue w1)" by simp
  from Suc.IH [OF config_inv_step [OF Suc.prems(1) s] loop_inv_step [OF Suc.prems(2) s] n1]
  obtain es w' where r: "run w1 es = Some w'" "\<forall>e\<in>set es. is_tick e"
    "map fst (history w') = map fst (history w1) @ map promise (take n (taskQueue w1))"
    by blast
  have "run w (Timeout d 0 0 # es) = Some w'" using s r(1) by simp
  moreover have "\<forall>e\<in>set (Timeout d 0 0 # es). is_tick e" using r(2) by simp
  moreover have "map fst (history w') =
      map fst (history w) @ map promise (take (Suc n) (taskQueue w))"
    using r(3) w1 q n by simp
  ultimately show ?case by blast
qed

text \<open>
  Claim C5. If the \<^verbatim>\<open>try\<close> block of a tick throws, the tick still completes: the
  exception is logged at error level, no promise handed out before changes, a tick is
  scheduled again if tasks are still waiting, and there is a sequence of further ticks
  that dispatches every task waiting after the failed tick, in order.
\<close>

theorem loop_survives_exception:
  assumes "run (FlowControl M nm t0 h0) evs = Some w"
    and "fst (tryBlock d1 d2 d3 w) = Some x"
  shows "\<exists>w'. step w (Timeout d1 d2 d3) = Some w'
    \<and> log w' = log w @ [Error_unknown x]
    \<and> take (length (promises w)) (promises w') = promises w
    \<and> (\<exists>new. taskQueue w' = tl (taskQueue w) @ new)
    \<and> (taskQueue w' \<noteq> [] \<longrightarrow> 0 < timers w')
    \<and> (\<exists>es w''. run w' es = Some w'' \<and> (\<forall>e\<in>set es. is_tick e)
          \<and> map fst (history w'') = map fst (history w') @ map promise (taskQueue w'))"
proof -
  from reachable_inv [OF assms(1)] have c: "config_inv M w" and l: "loop_inv w"
    by (simp_all add: all_inv_def)
  from assms(2) obtain t rest where q: "taskQueue w = t # rest" and g: "\<not> flowBlocked d1 w"
    and th: "thrown (result (caller t)) = Some x"
    by (auto simp: tryBlock_throws)
  from q l have "timers w > 0" by (simp add: loop_inv_def)
  then obtain w' where s: "step w (Timeout d1 d2 d3) = Some w'" by auto
  from s have a: "log w' = log w @ [Error_unknown x]
      \<and> take (length (promises w)) (promises w') = promises w
      \<and> (\<exists>new. taskQueue w' = tl (taskQueue w) @ new)"
    using q g th by (cases rule: step_cases) auto
  from loop_inv_step [OF l s] have b: "taskQueue w' \<noteq> [] \<longrightarrow> 0 < timers w'"
    by (simp add: loop_inv_def)
  from drain [OF config_inv_step [OF c s] loop_inv_step [OF l s] order_refl]
  have "\<exists>es w''. run w' es = Some w'' \<and> (\<forall>e\<in>set es. is_tick e)
          \<and> map fst (history w'') = map fst (history w') @ map promise (taskQueue w')"
    by simp
  with s a b show ?thesis by blast
qed

theorem loop_survives_exception_witness:
  "run (FlowControl 0 ''q'' 1000 Map.empty) throwing_events = Some throwing_run \<and>
   fst (tryBlock 0 0 0 throwing_run) = Some (String ''boom'') \<and>
   (\<exists>w'. step throwing_run (Timeout 0 0 0) = Some w'
      \<and> log w' = log throwing_run @ [Error_unknown (String ''boom'')]
      \<and> take (length (promises throwing_run)) (promises w') = promises throwing_run
      \<and> (\<exists>es w''. run w' es = Some w'' \<and> (\<forall>e\<in>set es. is_tick e)
          \<and> map fst (history w'') = map fst (history w') @ map promise (taskQueue w')))"
proof -
  have r: "run (FlowControl 0 ''q'' 1000 Map.empty) throwing_events = Some throwing_run"
    by (simp add: throwing_run_def throwing_events_def plain_def eval_defs)
  have t: "fst (tryBlock 0 0 0 throwing_run) = Some (String ''boom'')"
    by (simp add: throwing_run_def throwing_events_def plain_def eval_defs)
  from loop_survives_exception [OF r t] r t show ?thesis by blast
qed

section \<open>A function that throws synchronously\<close>

text \<open>
  Claim C10. If the function of the task at the head of the queue does not return a
  promise (it throws, or \<^verbatim>\<open>.then\<close> throws on what it returned) and the flow check passes,
  the tick logs the exception and leaves \<^verbatim>\<open>_count\<close>, the tasks in flight, \<^verbatim>\<open>_total\<close> and
  \<^verbatim>\<open>_totalTime\<close> unchanged. The promise returned by \<^verbatim>\<open>call\<close> for that task is pending
  and stays pending in every later state, where the task can neither settle nor run a
  settlement handler. The tasks waiting after the tick are still dispatched by further
  ticks, in order.
\<close>

theorem throwing_function_never_settles:
  assumes "run (FlowControl M nm t0 h0) evs = Some w"
    and "taskQueue w = t # rest" and "result (caller t) \<noteq> ReturnsAwaitable"
    and "fst (checkFlow d1 w)"
  shows "\<exists>w' x. step w (Timeout d1 d2 d3) = Some w'
    \<and> taskQueue w' = rest @ spawn t w
    \<and> log w' = log w @ [Error_unknown x]
    \<and> count w' = count w \<and> running w' = running w
    \<and> total w' = total w \<and> totalTime w' = totalTime w
    \<and> promises w' ! promise t = Pending
    \<and> (\<forall>es w''. run w' es = Some w'' \<longrightarrow>
          promises w'' ! promise t = Pending
          \<and> (\<forall>oc. step w'' (Settle (promise t) oc) = None)
          \<and> (\<forall>d. step w'' (Finally (promise t) d) = None))
    \<and> (\<exists>es w''. run w' es = Some w'' \<and> (\<forall>e\<in>set es. is_tick e)
          \<and> map fst (history w'') = map fst (history w') @ map promise (taskQueue w'))"
proof -
  from reachable_inv [OF assms(1)] have c: "config_inv M w" and l: "loop_inv w"
    and ids: "ids_inv w" and pend: "pending_inv w"
    by (simp_all add: all_inv_def)
  from assms(3) obtain x where th: "thrown (result (caller t)) = Some x"
    by (cases "result (caller t)") auto
  from assms(4) have g: "\<not> flowBlocked d1 w" by (simp add: checkFlow_fst)
  from assms(2) l have "timers w > 0" by (simp add: loop_inv_def)
  then obtain w' where s: "step w (Timeout d1 d2 d3) = Some w'" by auto
  from head_id [OF ids assms(2)] have pt: "promise t = length (history w)"
    and ptl: "promise t < length (promises w)" by auto
  from s have a: "taskQueue w' = rest @ spawn t w \<and> log w' = log w @ [Error_unknown x]
      \<and> count w' = count w \<and> running w' = running w
      \<and> total w' = total w \<and> totalTime w' = totalTime w
      \<and> promises w' = promises w @ replicate (length (spawn t w)) Pending
      \<and> length (history w') = Suc (length (history w))"
    using assms(2) g th by (cases rule: step_cases) auto
  from pend assms(2) have "promises w ! promise t = Pending" by (simp add: pending_inv_def)
  with a ptl have pe: "promises w' ! promise t = Pending" by (simp add: nth_append)
  have "\<forall>r\<in>set (running w). r_promise r \<noteq> promise t"
    using running_ids [OF ids] pt by fastforce
  with a pt have dd: "dead (promise t) w'" by (simp add: dead_def)
  have ids': "ids_inv w'" by (rule ids_inv_step [OF ids s])
  {
    fix es w''
    assume r: "run w' es = Some w''"
    from dead_run [OF ids' dd r] pe dead_disabled [of "promise t" w'']
    have "promises w'' ! promise t = Pending
          \<and> (\<forall>oc. step w'' (Settle (promise t) oc) = None)
          \<and> (\<forall>d. step w'' (Finally (promise t) d) = None)"
      by simp
  }
  note never = this
  from drain [OF config_inv_step [OF c s] loop_inv_step [OF l s] order_refl]
  have dr: "\<exists>es w''. run w' es = Some w'' \<and> (\<forall>e\<in>set es. is_tick e)
          \<and> map fst (history w'') = map fst (history w') @ map promise (taskQueue w')"
    by simp
  from s a pe never dr show ?thesis by (intro exI [of _ w'] exI [of _ x]) simp
qed

theorem throwing_function_never_settles_witness:
  "run (FlowControl 0 ''q'' 1000 Map.empty) throwing_events = Some throwing_run \<and>
   taskQueue throwing_run = \<lparr>caller = Callable [] (Throws (String ''boom'')), args = [], promise = 0\<rparr>
      # [\<lparr>caller = plain, args = [], promise = 1\<rparr>] \<and>
   fst (checkFlow 0 throwing_run) \<and>
   (\<exists>w' x. step throwing_run (Timeout 0 0 0) = Some w'
      \<and> taskQueue w' = [\<lparr>caller = plain, args = [], promise = 1\<rparr>]
      \<and> log w' = log throwing_run @ [Error_unknown x]
      \<and> count w' = count throwing_run
      \<and> promises w' ! 0 = Pending)"
proof -
  have r: "run (FlowControl 0 ''q'' 1000 Map.empty) throwing_events = Some throwing_run"
    by (simp add: throwing_run_def throwing_events_def plain_def eval_defs)
  have q: "taskQueue throwing_run =
      \<lparr>caller = Callable [] (Throws (String ''boom'')), args = [], promise = 0\<rparr>
      # [\<lparr>caller = plain, args = [], promise = 1\<rparr>]"
    by (simp add: throwing_run_def throwing_events_def plain_def eval_defs)
  have c: "result (caller \<lparr>caller = Callable [] (Throws (String ''boom'')), args = [],
      promise = 0\<rparr>) \<noteq> ReturnsAwaitable"
    by simp
  have g: "fst (checkFlow 0 throwing_run)"
    by (simp add: throwing_run_def throwing_events_def plain_def eval_defs)
  have n: "spawn \<lparr>caller = Callable [] (Throws (String ''boom'')), args = [], promise = 0\<rparr>
      throwing_run = []"
    by (simp add: spawn_def)
  from throwing_function_never_settles [OF r q c g, of 0 0] r q g n
  show ?thesis by (auto simp del: step.simps run.simps)
qed

section \<open>The in-flight counter\<close>

text \<open>
  Claim C4 as stated fails in two places. The counter is not back at 0 as soon as every
  submitted task has settled: \<^verbatim>\<open>then(resolve)\<close> and \<^verbatim>\<open>catch(reject)\<close> settle the caller's
  promise, and the decrement is in the \<^verbatim>\<open>finally\<close> handler chained behind them, which
  runs later. After one task was submitted, dispatched and rejected, the only promise
  handed out is rejected, no task waits, and the counter is 1. And a dispatch does not
  always increment: a function that throws is shifted from the queue and invoked, and the
  counter stays 0.
\<close>

theorem counter_after_settlement_counterexample:
  "run (FlowControl 0 ''q'' 1000 Map.empty) settled_events = Some settled_run \<and>
   promises settled_run = [Rejected Null] \<and> length (submissions settled_run) = 1 \<and>
   taskQueue settled_run = [] \<and> count settled_run = 1 \<and>
   run (FlowControl 0 ''q'' 1000 Map.empty) thrown_events = Some thrown_run \<and>
   length (history thrown_run) = 1 \<and> taskQueue thrown_run = [] \<and> count thrown_run = 0"
  by (simp add: settled_run_def settled_events_def thrown_run_def thrown_events_def
      plain_def eval_defs)

text \<open>
  Claim C4, as amended. In every reachable state \<^verbatim>\<open>_count\<close> is the number of tasks in
  flight (dispatched, the function returned a promise, the \<^verbatim>\<open>finally\<close> handler has not
  run), so it is never negative; it is the number of dispatched tasks whose function
  returned a promise minus the number of handler runs so far. \<^verbatim>\<open>call\<close> and the settlement
  of a task's promise leave it. A tick adds one exactly when it dispatches a task whose
  function returns a promise, and nothing otherwise. The \<^verbatim>\<open>finally\<close> handler of a task
  can run exactly when the task is in flight and its promise has settled; every run
  subtracts one, also when the handler throws afterwards, and the handler of one task
  never runs twice. The counter is 0 when no task is in flight, and once the tasks in
  flight have settled, running their handlers brings it to 0.
\<close>

theorem in_flight_counter:
  assumes "run (FlowControl M nm t0 h0) evs = Some w"
  shows "0 \<le> count w \<and> count w = int (length (running w))
    \<and> count w = int (length (filter (\<lambda>t. \<not> failing t) (dispatched w)))
        - int (length (filter is_handler evs))
    \<and> (\<forall>c as. count (snd (call c as w)) = count w)
    \<and> (\<forall>d1 d2 d3 w'. step w (Timeout d1 d2 d3) = Some w' \<longrightarrow>
          length (history w') = length (history w)
            + (if taskQueue w \<noteq> [] \<and> fst (checkFlow d1 w) then 1 else 0)
          \<and> count w' = count w
            + (if taskQueue w \<noteq> [] \<and> fst (checkFlow d1 w) \<and> \<not> failing (hd (taskQueue w))
               then 1 else 0))
    \<and> (\<forall>p oc w'. step w (Settle p oc) = Some w' \<longrightarrow>
          count w' = count w \<and> history w' = history w)
    \<and> (\<forall>r d. count (snd (finallyCallback r d w)) = count w - 1)
    \<and> (\<forall>p d. (step w (Finally p d) \<noteq> None) =
          (\<exists>r\<in>set (running w). r_promise r = p \<and> r_settled r))
    \<and> (\<forall>p d w'. step w (Finally p d) = Some w' \<longrightarrow>
          count w' = count w - 1 \<and> history w' = history w
          \<and> (\<forall>es w'' k. run w' es = Some w'' \<longrightarrow> step w'' (Finally p k) = None))
    \<and> (running w = [] \<longrightarrow> count w = 0)
    \<and> ((\<forall>r\<in>set (running w). r_settled r) \<longrightarrow>
          (\<exists>w'. run w (map (\<lambda>r. Finally (r_promise r) d) (running w)) = Some w'
             \<and> count w' = 0))"
proof -
  from reachable_inv [OF assms] have inv: "all_inv M h0 w" .
  then have c: "count_inv w" and a: "acct_inv w" and i: "ids_inv w" and f: "fifo_inv w"
    by (simp_all add: all_inv_def)
  from c have one: "0 \<le> count w \<and> count w = int (length (running w))"
    by (simp add: count_inv_def)
  have "length (dispatched w) = length (history w)"
    using history_le [OF i f] by (simp add: dispatched_def)
  moreover have "length (filter failing (dispatched w))
      + length (filter (\<lambda>t. \<not> failing t) (dispatched w)) = length (dispatched w)"
    by (rule sum_length_filter_compl)
  moreover from handled_run [OF assms]
  have "total w + int (length (unhandled w)) = int (length (filter is_handler evs))"
    by (simp add: FlowControl_def)
  ultimately have two: "count w = int (length (filter (\<lambda>t. \<not> failing t) (dispatched w)))
        - int (length (filter is_handler evs))"
    using a by (simp add: acct_inv_def)
  have three: "\<forall>c as. count (snd (call c as w)) = count w" by (simp add: call_eq)
  {
    fix d1 d2 d3 w'
    assume "step w (Timeout d1 d2 d3) = Some w'"
    then have "length (history w') = length (history w)
            + (if taskQueue w \<noteq> [] \<and> fst (checkFlow d1 w) then 1 else 0)
          \<and> count w' = count w
            + (if taskQueue w \<noteq> [] \<and> fst (checkFlow d1 w) \<and> \<not> failing (hd (taskQueue w))
               then 1 else 0)"
      by (cases rule: step_cases) (simp_all add: checkFlow_fst failing_thrown)
  }
  note four = this
  {
    fix p oc w'
    assume "step w (Settle p oc) = Some w'"
    then have "count w' = count w \<and> history w' = history w"
      by (cases rule: step_cases) simp_all
  }
  note five = this
  have six: "\<forall>r d. count (snd (finallyCallback r d w)) = count w - 1"
    by (simp add: finallyCallback_count)
  {
    fix p d w' es w'' k
    assume s: "step w (Finally p d) = Some w'" and r: "run w' es = Some w''"
    from s obtain r0 where fr: "find (\<lambda>r. r_promise r = p) (running w) = Some r0"
      and w': "w' = finallyReaction r0 d w"
      by (auto split: option.splits if_splits)
    from find_running [OF fr] running_ids [OF i] have "p < length (history w)"
      and rp: "r_promise r0 = p" by auto
    moreover from s have "history w' = history w" by (cases rule: step_cases) simp_all
    ultimately have "dead p w'" using w' rp
      by (simp add: dead_def finallyReaction_running)
    from dead_run [OF ids_inv_step [OF i s] this r] have "dead p w''" by simp
    from dead_disabled [OF this] have "step w'' (Finally p k) = None" by simp
  }
  note never = this
  {
    fix p d w'
    assume s: "step w (Finally p d) = Some w'"
    then have "count w' = count w - 1 \<and> history w' = history w"
      by (cases rule: step_cases) simp_all
    with never [OF s] have "count w' = count w - 1 \<and> history w' = history w
          \<and> (\<forall>es w'' k. run w' es = Some w'' \<longrightarrow> step w'' (Finally p k) = None)"
      by blast
  }
  note seven = this
  from one have eight: "running w = [] \<longrightarrow> count w = 0" by simp
  from i have "distinct (map r_promise (running w))" by (simp add: ids_inv_def)
  from finally_enabled [OF this]
  have ten: "\<forall>p d. (step w (Finally p d) \<noteq> None) =
          (\<exists>r\<in>set (running w). r_promise r = p \<and> r_settled r)" by blast
  {
    assume "\<forall>r\<in>set (running w). r_settled r"
    with finally_all [of w d] i obtain w'
      where r: "run w (map (\<lambda>r. Finally (r_promise r) d) (running w)) = Some w'"
        and e: "running w' = []"
      by (auto simp: ids_inv_def)
    from all_inv_run [OF inv r] have "count_inv w'" by (simp add: all_inv_def)
    with e have "count w' = 0" by (simp add: count_inv_def)
    with r have "\<exists>w'. run w (map (\<lambda>r. Finally (r_promise r) d) (running w)) = Some w'
             \<and> count w' = 0" by blast
  }
  note nine = this
  from one two three four five six seven eight nine ten show ?thesis by blast
qed

theorem in_flight_counter_witness:
  "run (FlowControl 0 ''q'' 1000 Map.empty) settled_events = Some settled_run \<and>
   count settled_run = 1 \<and> length (running settled_run) = 1 \<and>
   length (filter (\<lambda>t. \<not> failing t) (dispatched settled_run)) = 1 \<and>
   length (filter is_handler settled_events) = 0 \<and>
   step settled_run (Finally 0 7) = Some (the (step settled_run (Finally 0 7))) \<and>
   count (the (step settled_run (Finally 0 7))) = 0 \<and>
   step (the (step settled_run (Finally 0 7))) (Finally 0 9) = None \<and>
   (\<exists>w'. run settled_run (map (\<lambda>r. Finally (r_promise r) 7) (running settled_run)) = Some w'
      \<and> count w' = 0)"
proof -
  have r: "run (FlowControl 0 ''q'' 1000 Map.empty) settled_events = Some settled_run"
    by (simp add: settled_run_def settled_events_def plain_def eval_defs)
  have s: "step settled_run (Finally 0 7) = Some (the (step settled_run (Finally 0 7)))"
    by (simp add: settled_run_def settled_events_def plain_def eval_defs)
  have v: "length (running settled_run) = 1"
    "length (filter (\<lambda>t. \<not> failing t) (dispatched settled_run)) = 1"
    "length (filter is_handler settled_events) = 0"
    "\<forall>r\<in>set (running settled_run). r_settled r"
    by (simp_all add: settled_run_def settled_events_def plain_def eval_defs failing_def
        dispatched_def)
  have n: "run (the (step settled_run (Finally 0 7))) [] = Some (the (step settled_run (Finally 0 7)))"
    by simp
  note t = in_flight_counter [OF r, of 7]
  from t v have c: "count settled_run = 1" by simp
  from t s have "count (the (step settled_run (Finally 0 7))) = count settled_run - 1
      \<and> (\<forall>es w'' k. run (the (step settled_run (Finally 0 7))) es = Some w'' \<longrightarrow>
            step w'' (Finally 0 k) = None)"
    by blast
  with n c have d: "count (the (step settled_run (Finally 0 7))) = 0"
    "step (the (step settled_run (Finally 0 7))) (Finally 0 9) = None"
    by (simp, blast)
  from t v(4) have e: "\<exists>w'. run settled_run
      (map (\<lambda>r. Finally (r_promise r) 7) (running settled_run)) = Some w' \<and> count w' = 0"
    by blast
  from r c v(1,2,3) s d e show ?thesis by blast
qed

section \<open>The caller's argument objects\<close>

text \<open>
  Claim C6 as stated (argument objects are left unchanged) fails: a task is submitted
  with the argument objects \<open>{token: "secret", id: 1}\<close> and \<open>{token: "other"}\<close>, dispatched
  and settled, and afterwards the caller's objects are \<open>{id: 1}\<close> and \<open>{}\<close>.
\<close>

theorem arguments_changed_counterexample:
  "run (FlowControl 0 ''q'' 1000 token_heap) (token_events @ [Finally 0 0]) = Some token_run \<and>
   map_option props (token_heap 0) = Some [(''token'', String ''secret''), (''id'', Number 1)] \<and>
   map_option props (heap token_run 0) = Some [(''id'', Number 1)] \<and>
   map_option props (token_heap 1) = Some [(''token'', String ''other'')] \<and>
   map_option props (heap token_run 1) = Some [] \<and>
   heap token_run 0 \<noteq> token_heap 0"
  by (simp add: token_run_def token_events_def token_heap_def plain_def eval_defs)

text \<open>
  Claim C6, as amended. The queue changes a caller's argument object in one way only:
  the settlement handler of a task deletes the own property \<^verbatim>\<open>token\<close> from that task's
  argument objects. \<^verbatim>\<open>call\<close>, a tick and the settlement of a promise leave every object as
  it is. The handler of a task goes through the arguments given at its submission, in
  order: if neither \<^verbatim>\<open>hasOwnProperty\<close> nor \<^verbatim>\<open>delete\<close> throws on any of them, afterwards
  every object among the arguments is without its \<^verbatim>\<open>token\<close> and every other object is as
  before; if one throws, that holds of the arguments before the first one that throws,
  and it and the later arguments keep what they have. They throw on an object that has
  an own property \<^verbatim>\<open>hasOwnProperty\<close> or no prototype, and on a sealed object that has a
  \<^verbatim>\<open>token\<close>, and on nothing else. Deleting \<^verbatim>\<open>token\<close> removes that
  property and leaves every other property as it was. Hence in every reachable state
  each object is as the caller supplied it, or it is an argument of a submitted task and
  has lost exactly its \<^verbatim>\<open>token\<close>.
\<close>

theorem arguments_lose_only_token:
  assumes "run (FlowControl M nm t0 h0) evs = Some w"
  shows "(\<forall>a. heap w a = h0 a \<or>
       (Object a \<in> set (concat (map args (submissions w)))
          \<and> heap w a = map_option deleteToken (h0 a)))
    \<and> (\<forall>e w'. step w e = Some w' \<and> \<not> is_handler e \<longrightarrow> heap w' = heap w)
    \<and> (\<forall>p d w'. step w (Finally p d) = Some w' \<longrightarrow>
          p < length (submissions w)
          \<and> heap w' = snd (stripArgs (heap w) (args (submissions w ! p))))
    \<and> (\<forall>h as. fst (stripArgs h as) = None \<longrightarrow>
          (\<forall>a. snd (stripArgs h as) a =
             (if Object a \<in> set as then map_option deleteToken (h a) else h a)))
    \<and> (\<forall>h as x. fst (stripArgs h as) = Some x \<longrightarrow>
          (\<exists>k<length as. fst (stripArgs h (take k as)) = None
             \<and> stripArg (snd (stripArgs h (take k as))) (as ! k) = Inl x
             \<and> snd (stripArgs h as) = snd (stripArgs h (take k as))))
    \<and> (\<forall>h v x. (stripArg h v = Inl x) =
          (\<exists>r ob. v = Object r \<and> h r = Some ob \<and> x = String ''TypeError''
             \<and> (''hasOwnProperty'' \<in> set (map fst (props ob)) \<or> nullProto ob
                  \<or> sealed ob \<and> ''token'' \<in> set (map fst (props ob)))))
    \<and> (\<forall>ob. ''token'' \<notin> set (map fst (props (deleteToken ob)))
          \<and> (\<forall>k. k \<noteq> ''token'' \<longrightarrow> map_of (props (deleteToken ob)) k = map_of (props ob) k)
          \<and> nullProto (deleteToken ob) = nullProto ob \<and> sealed (deleteToken ob) = sealed ob)"
proof -
  from reachable_inv [OF assms] have h: "heap_inv h0 w" and ar: "args_inv w"
    by (simp_all add: all_inv_def)
  then have one: "\<forall>a. heap w a = h0 a \<or>
       (Object a \<in> set (concat (map args (submissions w)))
          \<and> heap w a = map_option deleteToken (h0 a))"
    by (simp add: heap_inv_def)
  {
    fix e w'
    assume "step w e = Some w'" "\<not> is_handler e"
    then have "heap w' = heap w" by (cases rule: step_cases) simp_all
  }
  then have two: "\<forall>e w'. step w e = Some w' \<and> \<not> is_handler e \<longrightarrow> heap w' = heap w"
    by blast
  {
    fix p d w'
    assume s: "step w (Finally p d) = Some w'"
    then obtain r where fr: "find (\<lambda>r. r_promise r = p) (running w) = Some r"
      by (auto split: option.splits)
    from find_running [OF fr] ar have a: "p < length (submissions w)"
      "r_args r = args (submissions w ! p)"
      by (auto simp: args_inv_def)
    from s have "heap w' = snd (stripArgs (heap w) (r_args r))"
    proof (cases rule: step_cases)
      case (Finally p' d' r')
      with fr show ?thesis by simp
    next
      case (Aborted p' d' r' x)
      with fr show ?thesis by simp
    qed simp_all
    with a have "p < length (submissions w)
          \<and> heap w' = snd (stripArgs (heap w) (args (submissions w ! p)))" by simp
  }
  then have three: "\<forall>p d w'. step w (Finally p d) = Some w' \<longrightarrow>
          p < length (submissions w)
          \<and> heap w' = snd (stripArgs (heap w) (args (submissions w ! p)))"
    by blast
  have four: "\<forall>h as. fst (stripArgs h as) = None \<longrightarrow>
          (\<forall>a. snd (stripArgs h as) a =
             (if Object a \<in> set as then map_option deleteToken (h a) else h a))"
    using stripArgs_done by blast
  have five: "\<forall>h as x. fst (stripArgs h as) = Some x \<longrightarrow>
          (\<exists>k<length as. fst (stripArgs h (take k as)) = None
             \<and> stripArg (snd (stripArgs h (take k as))) (as ! k) = Inl x
             \<and> snd (stripArgs h as) = snd (stripArgs h (take k as)))"
    using stripArgs_threw by blast
  have six: "\<forall>ob. ''token'' \<notin> set (map fst (props (deleteToken ob)))
          \<and> (\<forall>k. k \<noteq> ''token'' \<longrightarrow> map_of (props (deleteToken ob)) k = map_of (props ob) k)
          \<and> nullProto (deleteToken ob) = nullProto ob \<and> sealed (deleteToken ob) = sealed ob"
    using deleteToken_props by blast
  have seven: "\<forall>h v x. (stripArg h v = Inl x) =
          (\<exists>r ob. v = Object r \<and> h r = Some ob \<and> x = String ''TypeError''
             \<and> (''hasOwnProperty'' \<in> set (map fst (props ob)) \<or> nullProto ob
                  \<or> sealed ob \<and> ''token'' \<in> set (map fst (props ob))))"
    using stripArg_throws by blast
  from one two three four five seven six show ?thesis by blast
qed

theorem arguments_lose_only_token_witness:
  "run (FlowControl 0 ''q'' 1000 token_heap) token_events = Some token_settled \<and>
   heap token_settled = token_heap \<and>
   step token_settled (Finally 0 0) = Some token_run \<and>
   args (submissions token_settled ! 0) = [Object 0, Number 7, Object 1] \<and>
   heap token_run 0 = map_option deleteToken (token_heap 0) \<and>
   heap token_run 1 = map_option deleteToken (token_heap 1) \<and>
   heap token_run 2 = token_heap 2 \<and>
   map_option props (heap token_run 1) = Some []"
proof -
  have r: "run (FlowControl 0 ''q'' 1000 token_heap) token_events = Some token_settled"
    by (simp add: token_settled_def token_events_def token_heap_def plain_def eval_defs)
  have s: "step token_settled (Finally 0 0) = Some token_run"
    by (simp add: token_settled_def token_run_def token_events_def token_heap_def plain_def
        eval_defs)
  have h: "heap token_settled = token_heap"
    by (simp add: token_settled_def token_events_def token_heap_def plain_def eval_defs)
  have a: "args (submissions token_settled ! 0) = [Object 0, Number 7, Object 1]"
    by (simp add: token_settled_def token_events_def token_heap_def plain_def eval_defs)
  have n: "fst (stripArgs token_heap [Object 0, Number 7, Object 1]) = None"
    by (simp add: token_heap_def eval_defs)
  have p: "map_option props (map_option deleteToken (token_heap 1)) = Some []"
    by (simp add: token_heap_def eval_defs)
  note t = arguments_lose_only_token [OF r]
  note t3 = t [THEN conjunct2, THEN conjunct2, THEN conjunct1]
  note t4 = t [THEN conjunct2, THEN conjunct2, THEN conjunct2, THEN conjunct1]
  from t3 s have "heap token_run =
      snd (stripArgs (heap token_settled) (args (submissions token_settled ! 0)))"
    by blast
  then have e: "heap token_run = snd (stripArgs token_heap [Object 0, Number 7, Object 1])"
    by (simp only: h a)
  from t4 n have f: "\<forall>a. snd (stripArgs token_heap [Object 0, Number 7, Object 1]) a =
      (if Object a \<in> set [Object 0, Number 7, Object 1]
       then map_option deleteToken (token_heap a) else token_heap a)"
    by blast
  have "heap token_run 0 = map_option deleteToken (token_heap 0)"
    "heap token_run 1 = map_option deleteToken (token_heap 1)"
    "heap token_run 2 = token_heap 2"
    unfolding e using f by simp_all
  moreover from this(2) p have "map_option props (heap token_run 1) = Some []"
    by (simp only:)
  ultimately show ?thesis using r s h a by blast
qed

end
